theory Spec2Isabelle
  imports Complex_Main "HOL-Library.Monad_Syntax"
begin

section \<open>Data model (types.ts)\<close>

text \<open>
  The records follow the interfaces of \<^verbatim>\<open>types.ts\<close>. Field names that several
  interfaces share (\<^verbatim>\<open>id\<close>, \<^verbatim>\<open>title\<close>, \<^verbatim>\<open>description\<close>, \<^verbatim>\<open>status\<close>, ...) carry a
  prefix in all but the \<^verbatim>\<open>Task\<close> record, and \<^verbatim>\<open>id\<close> is always prefixed, since
  record fields are global constants. An optional field \<^verbatim>\<open>f?: T\<close> is a \<open>T option\<close>,
  \<open>None\<close> standing for \<^verbatim>\<open>undefined\<close>.
\<close>

datatype TaskStatus = DEFAULT | IMPORTANT | WARNING | INFO | COMPLETED

record Attachment =
  att_id :: string
  att_name :: string
  att_url :: string
  att_type :: string

record RecurrenceConfig =
  intervalWeeks :: int
  durationWeeks :: int

record PlanTaskItem =
  plan_id :: string
  plan_title :: string
  plan_description :: string
  weekOffset :: int
  plan_importance :: int
  plan_status :: TaskStatus
  recurrence :: "RecurrenceConfig option"
  plan_dependencies :: "string list"

record Task =
  task_id :: string
  experimentId :: string
  title :: string
  description :: string
  weekId :: string
  status :: TaskStatus
  importance :: int
  completed :: bool
  tags :: "string list"
  attachments :: "Attachment list"
  dependencies :: "string list"
  recurrenceGroupId :: "string option"
  planTaskId :: "string option"

datatype ExperimentStatus = active | archived

record ExperimentStyle =
  backgroundColor :: "string option"
  textColor :: "string option"

record Experiment =
  exp_id :: string
  exp_name :: string
  exp_description :: string
  collaborators :: "string list"
  startDate :: string
  endDate :: "string option"
  expectedWeeks :: int
  exp_status :: ExperimentStatus
  exp_attachments :: "Attachment list"
  proposalText :: "string option"
  originalPlan :: "PlanTaskItem list option"
  style :: "ExperimentStyle option"
  aiInsights :: "string list option"

typedecl AiSettings
typedecl SavedSummary

record AppData =
  experiments :: "Experiment list"
  tasks :: "Task list"
  schemaVersion :: int
  hiddenWeeks :: "string list"
  settings :: "AiSettings option"
  savedSummaries :: "SavedSummary list option"

section \<open>Calendar dates\<close>

text \<open>
  The program handles dates through JavaScript \<^verbatim>\<open>Date\<close> objects and the date-fns
  library (\<^verbatim>\<open>parseISO\<close>, \<^verbatim>\<open>format\<close>, \<^verbatim>\<open>startOfWeek\<close>, \<^verbatim>\<open>addWeeks\<close>,
  \<^verbatim>\<open>differenceInWeeks\<close>, \<^verbatim>\<open>isValid\<close>). Both are external to the repository; they
  are modelled here from the ECMAScript definitions of the date components and from the
  documented behaviour of the library functions.

  Every \<^verbatim>\<open>Date\<close> of the program comes from \<^verbatim>\<open>parseISO\<close> of a date-only string
  (local midnight), from arithmetic on such dates in whole days, or from
  \<^verbatim>\<open>new Date()\<close> passed at once to \<^verbatim>\<open>startOfWeek\<close>, which resets the time of
  day. A valid \<^verbatim>\<open>Date\<close> is therefore modelled as the number of its local calendar day,
  counted from 1970-01-01, and the Invalid Date as \<open>None\<close>. Time zones and daylight
  saving are outside the model.
\<close>

type_synonym Date = "int option"

datatype error = RangeError | TypeError | Error string

subsection \<open>Day numbers and date components (ECMAScript)\<close>

text \<open>\<^verbatim>\<open>DayFromYear(y)\<close>: the day number of the first day of year \<open>y\<close>.\<close>

definition DayFromYear :: "int \<Rightarrow> int" where
  "DayFromYear y = 365 * (y - 1970) + (y - 1969) div 4 - (y - 1901) div 100 + (y - 1601) div 400"

definition isLeapYearIndex :: "int \<Rightarrow> bool" where
  "isLeapYearIndex y = (y mod 400 = 0 \<or> (y mod 4 = 0 \<and> y mod 100 \<noteq> 0))"

definition DaysInYear :: "int \<Rightarrow> int" where
  "DaysInYear y = (if isLeapYearIndex y then 366 else 365)"

text \<open>
  ECMAScript defines the year of a day as the largest \<open>y\<close> with
  \<open>DayFromYear y \<le> d\<close>. The definition below computes it: an estimate from the mean
  length of a year, corrected by one where needed; lemma \<open>YearFromDay_bounds\<close> shows
  that it meets the defining property.
\<close>

definition YearFromDay :: "int \<Rightarrow> int" where
  "YearFromDay d =
     (let y = 1970 + (400 * d) div 146097
      in if d < DayFromYear y then y - 1
         else if DayFromYear (y + 1) \<le> d then y + 1
         else y)"

definition month_lengths :: "int \<Rightarrow> int list" where
  "month_lengths y =
     [31, if isLeapYearIndex y then 29 else 28, 31, 30, 31, 30, 31, 31, 30, 31, 30, 31]"

text \<open>
  The month (counted from 0) and the day of the month (counted from 1) of the \<open>n\<close>-th
  day of a year (counted from 0) whose months have the given lengths.
\<close>

fun month_day :: "int \<Rightarrow> int list \<Rightarrow> nat \<times> int" where
  "month_day n [] = (0, n + 1)"
| "month_day n (l # ls) =
     (if n < l then (0, n + 1)
      else (case month_day (n - l) ls of (m, d) \<Rightarrow> (Suc m, d)))"

definition getFullYear :: "int \<Rightarrow> int" where
  "getFullYear t = YearFromDay t"

definition getMonth :: "int \<Rightarrow> nat" where
  "getMonth t = fst (month_day (t - DayFromYear (YearFromDay t)) (month_lengths (YearFromDay t)))"

definition getDate :: "int \<Rightarrow> int" where
  "getDate t = snd (month_day (t - DayFromYear (YearFromDay t)) (month_lengths (YearFromDay t)))"

text \<open>\<^verbatim>\<open>getDay\<close>: 0 is Sunday; 1970-01-01, day 0, was a Thursday.\<close>

definition getDay :: "int \<Rightarrow> int" where
  "getDay t = (t + 4) mod 7"

definition MakeDay :: "int \<Rightarrow> nat \<Rightarrow> int \<Rightarrow> int" where
  "MakeDay year month date = DayFromYear year + sum_list (take month (month_lengths year)) + date - 1"

text \<open>
  A \<^verbatim>\<open>Date\<close> holds at most 100,000,000 days on either side of the epoch; a setter
  that leaves this range makes the Invalid Date.
\<close>

definition TimeClip :: "int \<Rightarrow> Date" where
  "TimeClip t = (if \<bar>t\<bar> \<le> 100000000 then Some t else None)"

subsection \<open>date-fns: format with the pattern yyyy-MM-dd\<close>

definition digit_char :: "nat \<Rightarrow> char" where
  "digit_char n = ''0123456789'' ! n"

text \<open>\<^verbatim>\<open>Number.prototype.toString\<close> on a natural number: its decimal digits.\<close>

fun toString_nat :: "nat \<Rightarrow> string" where
  "toString_nat n =
     (if n < 10 then [digit_char n] else toString_nat (n div 10) @ [digit_char (n mod 10)])"

declare toString_nat.simps [simp del]

definition addLeadingZeros :: "nat \<Rightarrow> nat \<Rightarrow> string" where
  "addLeadingZeros number targetLength =
     replicate (targetLength - length (toString_nat number)) CHR ''0'' @ toString_nat number"

text \<open>
  \<^verbatim>\<open>format(date, 'yyyy-MM-dd')\<close> throws a \<^verbatim>\<open>RangeError\<close> on the Invalid Date. The
  token \<^verbatim>\<open>yyyy\<close> prints the year of the era (year 0 is 1 BC and prints as 0001),
  padded to four digits at least.
\<close>

definition format_yyyy_MM_dd :: "Date \<Rightarrow> error + string" where
  "format_yyyy_MM_dd date =
     (case date of
        None \<Rightarrow> Inl RangeError
      | Some t \<Rightarrow>
          (let signedYear = getFullYear t;
               year = (if signedYear > 0 then signedYear else 1 - signedYear)
           in Inr (addLeadingZeros (nat year) 4 @ ''-'' @
                   addLeadingZeros (getMonth t + 1) 2 @ ''-'' @
                   addLeadingZeros (nat (getDate t)) 2)))"

subsection \<open>date-fns: parseISO\<close>

text \<open>
  The program stores dates as \<^verbatim>\<open>YYYY-MM-DD\<close> (the comments of \<^verbatim>\<open>types.ts\<close>, the
  values of \<^verbatim>\<open><input type="date">\<close> and the results of \<^verbatim>\<open>normalizeToSunday\<close>).
  \<^verbatim>\<open>parseISO\<close> is modelled on this form: four, two and two digits separated by
  hyphens, with the month and the day checked as the library's \<^verbatim>\<open>validateDate\<close> does.
  The library also reads other ISO 8601 forms (times, week dates, ordinal dates); they
  are outside the model, which gives the Invalid Date for every other string.
\<close>

definition is_digit :: "char \<Rightarrow> bool" where
  "is_digit c = (48 \<le> (of_char c :: nat) \<and> (of_char c :: nat) \<le> 57)"

definition parseInt :: "string \<Rightarrow> nat" where
  "parseInt s = foldl (\<lambda>a c. 10 * a + (of_char c - 48)) 0 s"

definition validateDate :: "int \<Rightarrow> int \<Rightarrow> int \<Rightarrow> bool" where
  "validateDate year month date =
     (0 \<le> month \<and> month \<le> 11 \<and> 1 \<le> date \<and> date \<le> month_lengths year ! nat month)"

definition parseISO :: "string \<Rightarrow> Date" where
  "parseISO s =
     (if length s = 10 \<and> s ! 4 = CHR ''-'' \<and> s ! 7 = CHR ''-'' \<and>
         list_all is_digit (take 4 s) \<and> list_all is_digit (take 2 (drop 5 s)) \<and>
         list_all is_digit (drop 8 s)
      then
        (let year = int (parseInt (take 4 s));
             month = int (parseInt (take 2 (drop 5 s))) - 1;
             day = int (parseInt (drop 8 s))
         in if validateDate year month day then Some (MakeDay year (nat month) day) else None)
      else None)"

subsection \<open>date-fns: date arithmetic\<close>

definition isValid :: "Date \<Rightarrow> bool" where
  "isValid date = (date \<noteq> None)"

definition addDays :: "Date \<Rightarrow> int \<Rightarrow> Date" where
  "addDays date amount = (case date of None \<Rightarrow> None | Some t \<Rightarrow> TimeClip (t + amount))"

definition addWeeks :: "Date \<Rightarrow> int \<Rightarrow> Date" where
  "addWeeks date amount = addDays date (amount * 7)"

text \<open>
  \<^verbatim>\<open>startOfWeek(date, { weekStartsOn: 0 })\<close>: the library computes
  \<^verbatim>\<open>diff = (day < weekStartsOn ? 7 : 0) + day - weekStartsOn\<close> and moves the date back
  by \<^verbatim>\<open>diff\<close> days. The program always passes \<^verbatim>\<open>weekStartsOn: 0\<close>.
\<close>

definition startOfWeek :: "Date \<Rightarrow> Date" where
  "startOfWeek date =
     (case date of
        None \<Rightarrow> None
      | Some t \<Rightarrow> (let day = getDay t; diff = (if day < 0 then 7 else 0) + day - 0
                   in TimeClip (t - diff)))"

text \<open>\<^verbatim>\<open>Math.trunc(a / b)\<close> for a positive \<open>b\<close>: rounding toward zero.\<close>

definition trunc_div :: "int \<Rightarrow> int \<Rightarrow> int" where
  "trunc_div a b = (if 0 \<le> a then a div b else - ((- a) div b))"

text \<open>The number of full days between two dates; \<open>None\<close> stands for \<^verbatim>\<open>NaN\<close>.\<close>

definition differenceInDays :: "Date \<Rightarrow> Date \<Rightarrow> int option" where
  "differenceInDays laterDate earlierDate =
     (case (laterDate, earlierDate) of (Some l, Some e) \<Rightarrow> Some (l - e) | _ \<Rightarrow> None)"

text \<open>\<^verbatim>\<open>differenceInWeeks\<close>: the full days divided by 7, rounded toward zero.\<close>

definition differenceInWeeks :: "Date \<Rightarrow> Date \<Rightarrow> int option" where
  "differenceInWeeks laterDate earlierDate =
     map_option (\<lambda>diff. trunc_div diff 7) (differenceInDays laterDate earlierDate)"

section \<open>Week identifiers (utils: normalizeToSunday)\<close>

text \<open>
  \<^verbatim>\<open>normalizeToSunday(date: Date | string)\<close> parses a string argument and takes a
  \<^verbatim>\<open>Date\<close> as it is; the two kinds of argument are the constructors of \<open>DateInput\<close>.
\<close>

datatype DateInput = DateObj Date | DateStr string

definition normalizeToSunday :: "DateInput \<Rightarrow> error + string" where
  "normalizeToSunday date =
     (let d = (case date of DateStr s \<Rightarrow> parseISO s | DateObj x \<Rightarrow> x)
      in format_yyyy_MM_dd (startOfWeek d))"

section \<open>Week offsets of a plan row (ExperimentDetailsModal: handleRowChange)\<close>

text \<open>
  \<^verbatim>\<open>handleRowChange\<close> keeps the two date fields of a plan row in step. When the
  field \<^verbatim>\<open>weekOffset\<close> is edited, the row's \<^verbatim>\<open>actualDate\<close> becomes
  \<^verbatim>\<open>normalizeToSunday(addWeeks(startDate, value))\<close>: this is \<open>dateFromOffset\<close>. When
  \<^verbatim>\<open>actualDate\<close> is edited, the row's \<^verbatim>\<open>weekOffset\<close> becomes
  \<^verbatim>\<open>differenceInWeeks(newDate, startDate)\<close>: this is \<open>weekOffsetOf\<close>. The handler
  runs either computation only when \<^verbatim>\<open>isValid\<close> holds of the parsed dates.
\<close>

definition dateFromOffset :: "string \<Rightarrow> int \<Rightarrow> error + string" where
  "dateFromOffset start n = normalizeToSunday (DateObj (addWeeks (parseISO start) n))"

definition weekOffsetOf :: "string \<Rightarrow> string \<Rightarrow> int option" where
  "weekOffsetOf start target = differenceInWeeks (parseISO target) (parseISO start)"

section \<open>Blocked-status derivation (utils: isTaskBlocked)\<close>

text \<open>
  \<^verbatim>\<open>allTasks.find(t => t.id === depId)\<close> is \<^const>\<open>find\<close>: the first task with that id.
  \<^verbatim>\<open>depTask && !depTask.completed\<close> is falsy when nothing is found.
\<close>

definition isTaskBlocked :: "Task \<Rightarrow> Task list \<Rightarrow> bool" where
  "isTaskBlocked task allTasks =
     (if dependencies task = [] then False
      else list_ex (\<lambda>depId.
             case find (\<lambda>t. task_id t = depId) allTasks of
               None \<Rightarrow> False
             | Some depTask \<Rightarrow> \<not> completed depTask)
           (dependencies task))"

section \<open>Deleting a task (App.tsx: handleDeleteTask)\<close>

text \<open>The state updater passed to \<^verbatim>\<open>setData\<close>: the previous \<^verbatim>\<open>AppData\<close> to the next.\<close>

definition handleDeleteTask :: "string \<Rightarrow> AppData \<Rightarrow> AppData" where
  "handleDeleteTask taskId prev =
     (let remainingTasks = filter (\<lambda>t. task_id t \<noteq> taskId) (tasks prev);
          cleanTasks = map (\<lambda>t.
            if taskId \<in> set (dependencies t)
            then t\<lparr>dependencies := filter (\<lambda>d. d \<noteq> taskId) (dependencies t)\<rparr>
            else t) remainingTasks
      in prev\<lparr>tasks := cleanTasks\<rparr>)"

section \<open>Shifting an experiment's timeline (App.tsx: handleShiftExperimentTimeline)\<close>





section \<open>Expanding a plan into tasks (ExperimentWizard: handleFinish)\<close>

text \<open>
  A draft of the wizard is a plan entry with a selection flag
  (\<^verbatim>\<open>interface EditableTask extends PlanTaskItem\<close>).
\<close>

record EditableTask = PlanTaskItem +
  isSelected :: bool
  originalDependencyIndex :: "int option"

text \<open>
  \<^verbatim>\<open>generateUUID()\<close> builds an id from two draws of \<^verbatim>\<open>Math.random()\<close>. The model
  takes the ids it returns, in the order of the calls, as a function \<open>uuid\<close> and
  threads the number of calls made so far.
\<close>

definition generateUUID :: "(nat \<Rightarrow> string) \<Rightarrow> nat \<Rightarrow> string \<times> nat" where
  "generateUUID uuid k = (uuid k, Suc k)"

text \<open>The object pushed for one occurrence of a recurring entry; \<open>count\<close> is the loop's counter.\<close>

definition recurringTask ::
  "string \<Rightarrow> EditableTask \<Rightarrow> string \<Rightarrow> string \<Rightarrow> nat \<Rightarrow> string \<Rightarrow> Task" where
  "recurringTask experimentId' draft groupId newId count wk =
     \<lparr>task_id = newId, experimentId = experimentId',
      title = plan_title draft @ '' ('' @ toString_nat (count + 1) @ '')'',
      description = plan_description draft, weekId = wk, status = plan_status draft,
      importance = plan_importance draft, completed = False, tags = [], attachments = [],
      dependencies = [], recurrenceGroupId = Some groupId, planTaskId = Some (plan_id draft)\<rparr>"

text \<open>The object pushed for an entry without recurrence.\<close>

definition singleTask :: "string \<Rightarrow> EditableTask \<Rightarrow> string \<Rightarrow> string \<Rightarrow> Task" where
  "singleTask experimentId' draft newId wk =
     \<lparr>task_id = newId, experimentId = experimentId', title = plan_title draft,
      description = plan_description draft, weekId = wk, status = plan_status draft,
      importance = plan_importance draft, completed = False, tags = [], attachments = [],
      dependencies = [], recurrenceGroupId = None, planTaskId = Some (plan_id draft)\<rparr>"

text \<open>
  The loop \<^verbatim>\<open>for (let w = 0; w < durationWeeks; w += intervalWeeks)\<close>, from the state
  \<open>(w, count, k, finalTasks)\<close>. The result \<open>None\<close> is a loop that never ends,
  \<open>Some (Inl e)\<close> an exception thrown by \<^verbatim>\<open>format\<close>, \<open>Some (Inr (finalTasks, k))\<close> the
  state at the loop's exit. The two numbers are integers here; a \<^verbatim>\<open>NaN\<close> from
  \<^verbatim>\<open>parseInt\<close> of an empty input is outside the model.
\<close>

partial_function (option) recurrence_loop ::
  "(nat \<Rightarrow> string) \<Rightarrow> string \<Rightarrow> string \<Rightarrow> EditableTask \<Rightarrow> int \<Rightarrow> int \<Rightarrow> string \<Rightarrow>
   int \<Rightarrow> nat \<Rightarrow> nat \<Rightarrow> Task list \<Rightarrow> (error + Task list \<times> nat) option" where
  "recurrence_loop uuid experimentId' startDate' draft intervalWeeks' durationWeeks' groupId
       w count k finalTasks =
     (if w < durationWeeks' then
        (case generateUUID uuid k of
           (newId, k') \<Rightarrow>
             (case normalizeToSunday
                     (DateObj (addWeeks (parseISO startDate') (weekOffset draft + w))) of
                Inl e \<Rightarrow> Some (Inl e)
              | Inr wk \<Rightarrow>
                  recurrence_loop uuid experimentId' startDate' draft intervalWeeks'
                    durationWeeks' groupId (w + intervalWeeks') (Suc count) k'
                    (finalTasks @ [recurringTask experimentId' draft groupId newId count wk])))
      else Some (Inr (finalTasks, k)))"

text \<open>The callback of \<^verbatim>\<open>selectedDrafts.forEach\<close>, from the state \<open>(finalTasks, k)\<close>.\<close>

definition expandDraft ::
  "(nat \<Rightarrow> string) \<Rightarrow> string \<Rightarrow> string \<Rightarrow> EditableTask \<Rightarrow> Task list \<times> nat \<Rightarrow>
   (error + Task list \<times> nat) option" where
  "expandDraft uuid experimentId' startDate' draft st =
     (case st of
        (finalTasks, k) \<Rightarrow>
          (case recurrence draft of
             Some r \<Rightarrow>
               (case generateUUID uuid k of
                  (groupId, k') \<Rightarrow>
                    recurrence_loop uuid experimentId' startDate' draft (intervalWeeks r)
                      (durationWeeks r) groupId 0 0 k' finalTasks)
           | None \<Rightarrow>
               (case generateUUID uuid k of
                  (newId, k') \<Rightarrow>
                    (case normalizeToSunday
                            (DateObj (addWeeks (parseISO startDate') (weekOffset draft))) of
                       Inl e \<Rightarrow> Some (Inl e)
                     | Inr wk \<Rightarrow>
                         Some (Inr (finalTasks @ [singleTask experimentId' draft newId wk], k'))))))"

fun forEach_drafts ::
  "(nat \<Rightarrow> string) \<Rightarrow> string \<Rightarrow> string \<Rightarrow> EditableTask list \<Rightarrow> Task list \<times> nat \<Rightarrow>
   (error + Task list \<times> nat) option" where
  "forEach_drafts uuid experimentId' startDate' [] st = Some (Inr st)"
| "forEach_drafts uuid experimentId' startDate' (draft # drafts) st =
     (case expandDraft uuid experimentId' startDate' draft st of
        None \<Rightarrow> None
      | Some (Inl e) \<Rightarrow> Some (Inl e)
      | Some (Inr st') \<Rightarrow> forEach_drafts uuid experimentId' startDate' drafts st')"

text \<open>
  The tasks \<^verbatim>\<open>handleFinish\<close> hands to \<^verbatim>\<open>onSave\<close>: the experiment's id is drawn first,
  then the selected drafts are expanded in order. The experiment record that
  \<^verbatim>\<open>handleFinish\<close> builds beside them is not modelled.
\<close>

definition handleFinish_tasks ::
  "(nat \<Rightarrow> string) \<Rightarrow> string \<Rightarrow> EditableTask list \<Rightarrow> (error + Task list) option" where
  "handleFinish_tasks uuid startDate' draftTasks =
     (case generateUUID uuid 0 of
        (experimentId', k) \<Rightarrow>
          map_option (map_sum id fst)
            (forEach_drafts uuid experimentId' startDate' (filter isSelected draftTasks) ([], k)))"

section \<open>Importing data (utils: validateAndMigrateAppData)\<close>

text \<open>
  The argument is typed \<^verbatim>\<open>any\<close>: it is the result of \<^verbatim>\<open>JSON.parse\<close> on an imported
  file, and the function reads its fields without trusting their types. The values of
  JavaScript that such data holds are modelled by \<open>jsval\<close>; an object is the list of
  its properties, read with \<^const>\<open>map_of\<close>. The TypeScript types of the result are
  erased at run time, so the records of the result hold a \<open>jsval\<close> in every field.
\<close>

datatype jsval =
    JUndefined
  | JNull
  | JBool bool
  | JNum rat
  | JStr string
  | JArr "jsval list"
  | JObj "(string \<times> jsval) list"

text \<open>Truthiness, as \<^verbatim>\<open>||\<close>, \<^verbatim>\<open>!\<close> and the conditional operator read it.\<close>

fun truthy :: "jsval \<Rightarrow> bool" where
  "truthy JUndefined = False"
| "truthy JNull = False"
| "truthy (JBool b) = b"
| "truthy (JNum n) = (n \<noteq> 0)"
| "truthy (JStr s) = (s \<noteq> [])"
| "truthy (JArr xs) = True"
| "truthy (JObj kvs) = True"

text \<open>\<^verbatim>\<open>a || b\<close> on values.\<close>

definition js_or :: "jsval \<Rightarrow> jsval \<Rightarrow> jsval" where
  "js_or a b = (if truthy a then a else b)"

text \<open>
  Reading a property \<^verbatim>\<open>x.k\<close> of a value that is neither \<^verbatim>\<open>null\<close> nor
  \<^verbatim>\<open>undefined\<close>: the property of an object, and \<^verbatim>\<open>undefined\<close> on a missing property
  and on a boolean, a number, a string or an array (none of the property names the
  function reads is defined on their prototypes). On \<^verbatim>\<open>null\<close> and \<^verbatim>\<open>undefined\<close> the
  access throws a \<^verbatim>\<open>TypeError\<close>; the callers below test \<open>nullish\<close> first.
\<close>

fun field :: "jsval \<Rightarrow> string \<Rightarrow> jsval" where
  "field (JObj kvs) k = (case map_of kvs k of Some v \<Rightarrow> v | None \<Rightarrow> JUndefined)"
| "field _ k = JUndefined"

fun nullish :: "jsval \<Rightarrow> bool" where
  "nullish JUndefined = True"
| "nullish JNull = True"
| "nullish _ = False"

fun isArray :: "jsval \<Rightarrow> bool" where
  "isArray (JArr xs) = True"
| "isArray _ = False"

fun isNumber :: "jsval \<Rightarrow> bool" where
  "isNumber (JNum n) = True"
| "isNumber _ = False"

fun isString :: "jsval \<Rightarrow> bool" where
  "isString (JStr s) = True"
| "isString _ = False"

fun isBoolean :: "jsval \<Rightarrow> bool" where
  "isBoolean (JBool b) = True"
| "isBoolean _ = False"

text \<open>\<^verbatim>\<open>typeof x === 'object'\<close>: objects, arrays and \<^verbatim>\<open>null\<close>.\<close>

fun typeof_object :: "jsval \<Rightarrow> bool" where
  "typeof_object JNull = True"
| "typeof_object (JArr xs) = True"
| "typeof_object (JObj kvs) = True"
| "typeof_object _ = False"

fun isPrimitive :: "jsval \<Rightarrow> bool" where
  "isPrimitive (JArr xs) = False"
| "isPrimitive (JObj kvs) = False"
| "isPrimitive _ = True"

text \<open>
  A \<^verbatim>\<open>Set\<close> compares by SameValueZero: primitive values by value, objects and arrays
  by identity. Every object or array of the parsed input is an object of its own, and
  the sets of this function are only asked about values read from another place of the
  input than the values they hold; so an object or array is never found in them. A set
  is modelled by the list of the values added.
\<close>

definition sameValueZero :: "jsval \<Rightarrow> jsval \<Rightarrow> bool" where
  "sameValueZero a b = (isPrimitive a \<and> a = b)"

definition set_has :: "jsval list \<Rightarrow> jsval \<Rightarrow> bool" where
  "set_has S x = list_ex (\<lambda>y. sameValueZero y x) S"

record RawExperiment =
  re_id :: jsval
  re_name :: jsval
  re_description :: jsval
  re_collaborators :: jsval
  re_startDate :: jsval
  re_endDate :: jsval
  re_expectedWeeks :: jsval
  re_status :: jsval
  re_attachments :: jsval
  re_proposalText :: jsval
  re_originalPlan :: jsval
  re_style :: jsval

record RawTask =
  rt_id :: jsval
  rt_experimentId :: jsval
  rt_title :: jsval
  rt_description :: jsval
  rt_weekId :: jsval
  rt_status :: jsval
  rt_importance :: jsval
  rt_completed :: jsval
  rt_tags :: jsval
  rt_attachments :: jsval
  rt_dependencies :: jsval
  rt_recurrenceGroupId :: jsval
  rt_planTaskId :: jsval

record RawAppData =
  ra_experiments :: "RawExperiment list"
  ra_tasks :: "RawTask list"
  ra_schemaVersion :: int
  ra_hiddenWeeks :: jsval
  ra_settings :: jsval

text \<open>
  \<^verbatim>\<open>x || generateUUID()\<close>: the id generator is called, and its count advanced, only
  when \<open>x\<close> is falsy.
\<close>

definition or_generateUUID :: "(nat \<Rightarrow> string) \<Rightarrow> jsval \<Rightarrow> nat \<Rightarrow> jsval \<times> nat" where
  "or_generateUUID uuid x k =
     (if truthy x then (x, k) else (case generateUUID uuid k of (i, k') \<Rightarrow> (JStr i, k')))"

text \<open>
  \<^verbatim>\<open>x || normalizeToSunday(new Date())\<close>: \<open>today\<close> is the day on which the function
  runs.
\<close>

definition or_currentWeek :: "int \<Rightarrow> jsval \<Rightarrow> error + jsval" where
  "or_currentWeek today x =
     (if truthy x then Inr x
      else (case normalizeToSunday (DateObj (Some today)) of
              Inl e \<Rightarrow> Inl e
            | Inr w \<Rightarrow> Inr (JStr w)))"

text \<open>The callback of \<^verbatim>\<open>imported.experiments.map\<close>, from the count \<open>k\<close> of ids generated.\<close>

definition cleanExperiment ::
  "(nat \<Rightarrow> string) \<Rightarrow> int \<Rightarrow> jsval \<Rightarrow> nat \<Rightarrow> error + RawExperiment \<times> nat" where
  "cleanExperiment uuid today e k =
     (if nullish e then Inl TypeError
      else (case or_generateUUID uuid (field e ''id'') k of
              (i, k') \<Rightarrow>
                (case or_currentWeek today (field e ''startDate'') of
                   Inl x \<Rightarrow> Inl x
                 | Inr sd \<Rightarrow>
                     Inr (\<lparr>re_id = i,
                           re_name = js_or (field e ''name'') (JStr ''Untitled Experiment''),
                           re_description = js_or (field e ''description'') (JStr []),
                           re_collaborators =
                             (if isArray (field e ''collaborators'') then field e ''collaborators''
                              else JArr []),
                           re_startDate = sd,
                           re_endDate = field e ''endDate'',
                           re_expectedWeeks =
                             (if isNumber (field e ''expectedWeeks'') then field e ''expectedWeeks''
                              else JNum 4),
                           re_status =
                             (if field e ''status'' = JStr ''archived'' then JStr ''archived''
                              else JStr ''active''),
                           re_attachments =
                             (if isArray (field e ''attachments'') then field e ''attachments''
                              else JArr []),
                           re_proposalText = js_or (field e ''proposalText'') (JStr []),
                           re_originalPlan =
                             (if isArray (field e ''originalPlan'') then field e ''originalPlan''
                              else JUndefined),
                           re_style = field e ''style''\<rparr>, k'))))"

fun map_experiments ::
  "(nat \<Rightarrow> string) \<Rightarrow> int \<Rightarrow> jsval list \<Rightarrow> nat \<Rightarrow> error + RawExperiment list \<times> nat" where
  "map_experiments uuid today [] k = Inr ([], k)"
| "map_experiments uuid today (e # es) k =
     (case cleanExperiment uuid today e k of
        Inl x \<Rightarrow> Inl x
      | Inr (c, k') \<Rightarrow>
          (case map_experiments uuid today es k' of
             Inl x \<Rightarrow> Inl x
           | Inr (cs, k'') \<Rightarrow> Inr (c # cs, k'')))"

text \<open>
  The callback of \<^verbatim>\<open>imported.tasks.reduce\<close>, from the state \<open>(acc, processedTaskIds, k)\<close>:
  the tasks kept so far, the ids seen so far and the count of ids generated.
\<close>

definition cleanTask ::
  "(nat \<Rightarrow> string) \<Rightarrow> int \<Rightarrow> jsval list \<Rightarrow> jsval \<Rightarrow> RawTask list \<times> jsval list \<times> nat \<Rightarrow>
   error + RawTask list \<times> jsval list \<times> nat" where
  "cleanTask uuid today validExpIds t st =
     (case st of
        (acc, processedTaskIds, k) \<Rightarrow>
          if nullish t then Inl TypeError
          else (case or_generateUUID uuid (field t ''id'') k of
                  (tId, k') \<Rightarrow>
                    if set_has processedTaskIds tId then Inr (acc, processedTaskIds, k')
                    else if \<not> set_has validExpIds (field t ''experimentId'')
                    then Inr (acc, processedTaskIds @ [tId], k')
                    else (case or_currentWeek today (field t ''weekId'') of
                            Inl x \<Rightarrow> Inl x
                          | Inr wk \<Rightarrow>
                              Inr (acc @
                                   [\<lparr>rt_id = tId,
                                     rt_experimentId = field t ''experimentId'',
                                     rt_title = js_or (field t ''title'') (JStr ''Untitled Task''),
                                     rt_description = js_or (field t ''description'') (JStr []),
                                     rt_weekId = wk,
                                     rt_status = js_or (field t ''status'') (JStr ''default''),
                                     rt_importance =
                                       (if isNumber (field t ''importance'') then field t ''importance''
                                        else JNum 3),
                                     rt_completed = JBool (truthy (field t ''completed'')),
                                     rt_tags =
                                       (if isArray (field t ''tags'') then field t ''tags''
                                        else JArr []),
                                     rt_attachments =
                                       (if isArray (field t ''attachments'') then field t ''attachments''
                                        else JArr []),
                                     rt_dependencies =
                                       (if isArray (field t ''dependencies'') then field t ''dependencies''
                                        else JArr []),
                                     rt_recurrenceGroupId = field t ''recurrenceGroupId'',
                                     rt_planTaskId = field t ''planTaskId''\<rparr>],
                                   processedTaskIds @ [tId], k'))))"

fun reduce_tasks ::
  "(nat \<Rightarrow> string) \<Rightarrow> int \<Rightarrow> jsval list \<Rightarrow> jsval list \<Rightarrow> RawTask list \<times> jsval list \<times> nat \<Rightarrow>
   error + RawTask list \<times> jsval list \<times> nat" where
  "reduce_tasks uuid today validExpIds [] st = Inr st"
| "reduce_tasks uuid today validExpIds (t # ts) st =
     (case cleanTask uuid today validExpIds t st of
        Inl x \<Rightarrow> Inl x
      | Inr st' \<Rightarrow> reduce_tasks uuid today validExpIds ts st')"

text \<open>
  \<open>stored\<close> is what \<^verbatim>\<open>getLocalStorage(AI_SETTINGS_KEY, DEFAULT_AI_SETTINGS)\<close> returns,
  the settings kept in the browser or the defaults.
\<close>

text \<open>The elements of an array, read where \<^verbatim>\<open>Array.isArray\<close> has been tested.\<close>

fun elements :: "jsval \<Rightarrow> jsval list" where
  "elements (JArr xs) = xs"
| "elements _ = []"

definition validateAndMigrateAppData ::
  "(nat \<Rightarrow> string) \<Rightarrow> int \<Rightarrow> jsval \<Rightarrow> jsval \<Rightarrow> error + RawAppData" where
  "validateAndMigrateAppData uuid today stored imported =
     (if \<not> typeof_object imported \<or> \<not> truthy imported
      then Inl (Error ''Invalid file format: content is not a JSON object.'')
      else if \<not> isArray (field imported ''experiments'')
      then Inl (Error ''Invalid format: 'experiments' array missing.'')
      else if \<not> isArray (field imported ''tasks'')
      then Inl (Error ''Invalid format: 'tasks' array missing.'')
      else
        (case map_experiments uuid today (elements (field imported ''experiments'')) 0 of
           Inl x \<Rightarrow> Inl x
         | Inr (cleanExperiments, k) \<Rightarrow>
             (case reduce_tasks uuid today (map re_id cleanExperiments)
                     (elements (field imported ''tasks'')) ([], [], k) of
                Inl x \<Rightarrow> Inl x
              | Inr (cleanTasks, processedTaskIds, k') \<Rightarrow>
                  Inr \<lparr>ra_experiments = cleanExperiments,
                       ra_tasks = cleanTasks,
                       ra_schemaVersion = 1,
                       ra_hiddenWeeks =
                         (if isArray (field imported ''hiddenWeeks'')
                          then field imported ''hiddenWeeks'' else JArr []),
                       ra_settings = js_or (field imported ''settings'') stored\<rparr>)))"

section \<open>The cycle guard\<close>

text \<open>
  \<^verbatim>\<open>hasCircularDependency\<close> builds a \<^verbatim>\<open>Map\<close> from task ids to dependency lists and runs
  a depth-first search from \<^verbatim>\<open>taskId\<close>. The \<^verbatim>\<open>Map\<close> is an association list with unique
  keys: \<open>map_set\<close> is \<^verbatim>\<open>adj.set(k, v)\<close>, which overwrites the entry of a key that is
  there, and \<open>neighbors\<close> is \<^verbatim>\<open>adj.get(curr) || []\<close>.
\<close>

type_synonym adjacency = "(string \<times> string list) list"

fun map_set :: "string \<Rightarrow> string list \<Rightarrow> adjacency \<Rightarrow> adjacency" where
  "map_set k v [] = [(k, v)]"
| "map_set k v (p # ps) = (if fst p = k then (k, v) # ps else p # map_set k v ps)"

definition neighbors :: "adjacency \<Rightarrow> string \<Rightarrow> string list" where
  "neighbors adj current = (case map_of adj current of Some ns \<Rightarrow> ns | None \<Rightarrow> [])"

text \<open>
  The closure \<^verbatim>\<open>isCyclic\<close> mutates the two sets \<^verbatim>\<open>visited\<close> and \<^verbatim>\<open>recursionStack\<close>; the
  model passes them in and returns them beside the result. \<open>isCyclic_neighbors\<close> is the
  \<^verbatim>\<open>for\<close> loop over the neighbours: on \<^verbatim>\<open>return true\<close> the recursion stack is left as
  it is, and only a node whose loop ends is deleted from it.
\<close>

function isCyclic :: "adjacency \<Rightarrow> string \<Rightarrow> string set \<times> string set \<Rightarrow> bool \<times> string set \<times> string set"
  and isCyclic_neighbors ::
    "adjacency \<Rightarrow> string list \<Rightarrow> string set \<times> string set \<Rightarrow> bool \<times> string set \<times> string set"
  where
  "isCyclic adj current (visited, recursionStack) =
     (case isCyclic_neighbors adj (neighbors adj current)
             (insert current visited, insert current recursionStack) of
        (True, st) \<Rightarrow> (True, st)
      | (False, (visited', recursionStack')) \<Rightarrow> (False, (visited', recursionStack' - {current})))"
| "isCyclic_neighbors adj [] st = (False, st)"
| "isCyclic_neighbors adj (neighbor # rest) (visited, recursionStack) =
     (if neighbor \<notin> visited then
        (case isCyclic adj neighbor (visited, recursionStack) of
           (True, st) \<Rightarrow> (True, st)
         | (False, st') \<Rightarrow> isCyclic_neighbors adj rest st')
      else if neighbor \<in> recursionStack then (True, (visited, recursionStack))
      else isCyclic_neighbors adj rest (visited, recursionStack))"
  by pat_completeness auto

text \<open>
  The search terminates: every call of \<open>isCyclic\<close> visits a node that was not visited,
  the visited set only grows, and all nodes are keys or neighbours of the map.
\<close>

definition nodes :: "adjacency \<Rightarrow> string set" where
  "nodes adj = fst ` set adj \<union> (\<Union>p \<in> set adj. set (snd p))"

lemma neighbors_nodes: "set (neighbors adj c) \<subseteq> nodes adj"
proof (cases "map_of adj c")
  case None
  then show ?thesis by (simp add: neighbors_def)
next
  case (Some ns)
  then have "(c, ns) \<in> set adj" by (rule map_of_SomeD)
  then show ?thesis using Some by (force simp: neighbors_def nodes_def)
qed

lemma finite_nodes: "finite (nodes adj)"
  by (simp add: nodes_def)

lemma visited_mono:
  "isCyclic_isCyclic_neighbors_dom (Inl (adj, c, st)) \<Longrightarrow> fst st \<subseteq> fst (snd (isCyclic adj c st))"
  "isCyclic_isCyclic_neighbors_dom (Inr (adj, ns, st)) \<Longrightarrow> fst st \<subseteq> fst (snd (isCyclic_neighbors adj ns st))"
proof (induction adj c st and adj ns st rule: isCyclic_isCyclic_neighbors.pinduct)
  case (1 adj current visited recursionStack)
  then show ?case
    by (auto simp: isCyclic.psimps split: prod.splits bool.splits)
next
  case (2 adj st)
  then show ?case by (simp add: isCyclic_neighbors.psimps)
next
  case (3 adj neighbor rest visited recursionStack)
  note ps = isCyclic_neighbors.psimps(2)[OF 3(1)]
  show ?case
  proof (cases "neighbor \<notin> visited")
    case True
    obtain b y where r: "isCyclic adj neighbor (visited, recursionStack) = (b, y)"
      by (cases "isCyclic adj neighbor (visited, recursionStack)")
    have m: "visited \<subseteq> fst y" using 3(2)[OF True] r by simp
    show ?thesis
    proof (cases b)
      case True
      then show ?thesis using \<open>neighbor \<notin> visited\<close> r m by (simp add: ps)
    next
      case False
      then have bf: "b = False" by simp
      have "fst y \<subseteq> fst (snd (isCyclic_neighbors adj rest y))"
        using 3(3)[OF \<open>neighbor \<notin> visited\<close> r[symmetric] bf] .
      then show ?thesis using \<open>neighbor \<notin> visited\<close> r m False by (auto simp: ps)
    qed
  next
    case False
    then show ?thesis using 3(4) by (auto simp: ps)
  qed
qed

termination isCyclic
proof (relation "measures
    [\<lambda>x. case x of Inl (adj, c, st) \<Rightarrow> card (nodes adj - insert c (fst st))
              | Inr (adj, ns, st) \<Rightarrow> card ((nodes adj \<union> set ns) - fst st),
     \<lambda>x. case x of Inl _ \<Rightarrow> 1 | Inr _ \<Rightarrow> 0,
     \<lambda>x. case x of Inl _ \<Rightarrow> 0 | Inr (adj, ns, st) \<Rightarrow> length ns]", goal_cases)
  case 1
  then show ?case by simp
next
  case (2 adj current visited recursionStack)
  have "(nodes adj \<union> set (neighbors adj current)) = nodes adj"
    using neighbors_nodes[of adj current] by auto
  then show ?case by simp
next
  case (3 adj neighbor rest visited recursionStack)
  have "nodes adj - insert neighbor visited \<subset> (nodes adj \<union> set (neighbor # rest)) - visited"
    using 3 by auto
  then have "card (nodes adj - insert neighbor visited) < card ((nodes adj \<union> set (neighbor # rest)) - visited)"
    by (intro psubset_card_mono) (simp_all add: finite_nodes)
  then show ?case by simp
next
  case (4 adj neighbor rest visited recursionStack x1 x2)
  then have dom: "isCyclic_isCyclic_neighbors_dom (Inl (adj, neighbor, visited, recursionStack))"
    and r: "(x1, x2) = isCyclic adj neighbor (visited, recursionStack)"
    by simp_all
  have "visited \<subseteq> fst x2" using visited_mono(1)[OF dom] r[symmetric] by simp
  then have "(nodes adj \<union> set rest) - fst x2 \<subseteq> (nodes adj \<union> set (neighbor # rest)) - visited"
    by auto
  then have "card ((nodes adj \<union> set rest) - fst x2) \<le> card ((nodes adj \<union> set (neighbor # rest)) - visited)"
    by (intro card_mono) (simp_all add: finite_nodes)
  then show ?case by auto
next
  case (5 adj neighbor rest visited recursionStack)
  have "(nodes adj \<union> set rest) - visited \<subseteq> (nodes adj \<union> set (neighbor # rest)) - visited"
    by auto
  then have "card ((nodes adj \<union> set rest) - visited) \<le> card ((nodes adj \<union> set (neighbor # rest)) - visited)"
    by (intro card_mono) (simp_all add: finite_nodes)
  then show ?case by auto
qed

declare isCyclic.simps [simp del]

definition hasCircularDependency :: "Task list \<Rightarrow> string \<Rightarrow> string \<Rightarrow> bool" where
  "hasCircularDependency allTasks taskId newDependencyId =
     (if taskId = newDependencyId then True
      else
        (let adj = fold (\<lambda>t m. map_set (task_id t) (dependencies t) m) allTasks [];
             currentDeps = neighbors adj taskId;
             adj' = map_set taskId (currentDeps @ [newDependencyId]) adj
         in fst (isCyclic adj' taskId ({}, {}))))"

section \<open>Notions used to state the properties\<close>

text \<open>The day number of the Sunday that begins the week of day \<open>t\<close>.\<close>

definition weekStart :: "int \<Rightarrow> int" where
  "weekStart t = t - getDay t"

text \<open>
  The difference in calendar weeks between two days, in the words of the
  specification: the difference between the Sunday-normalised weeks.
\<close>

definition calendarWeekDifference :: "int \<Rightarrow> int \<Rightarrow> int" where
  "calendarWeekDifference target start = (weekStart target - weekStart start) div 7"

text \<open>
  The days of the years 1 to 9999: on these, a \<^verbatim>\<open>yyyy-MM-dd\<close> string has a four-digit
  year that is the year of the date, and \<open>formatISO\<close> is what \<open>format_yyyy_MM_dd\<close>
  prints (lemma \<open>format_formattable\<close>).
\<close>

definition formattable :: "int \<Rightarrow> bool" where
  "formattable t = (DayFromYear 1 \<le> t \<and> t < DayFromYear 10000)"

definition formatISO :: "int \<Rightarrow> string" where
  "formatISO t = addLeadingZeros (nat (getFullYear t)) 4 @ ''-'' @
                 addLeadingZeros (getMonth t + 1) 2 @ ''-'' @
                 addLeadingZeros (nat (getDate t)) 2"

text \<open>A task of the given id, completion flag and dependencies, for concrete instances.\<close>

definition exampleTask :: "string \<Rightarrow> bool \<Rightarrow> string list \<Rightarrow> Task" where
  "exampleTask i c deps =
     \<lparr>task_id = i, experimentId = ''e1'', title = ''task'', description = '''',
      weekId = ''2024-01-07'', status = DEFAULT, importance = 3, completed = c, tags = [],
      attachments = [], dependencies = deps, recurrenceGroupId = None, planTaskId = None\<rparr>"


definition exampleData :: "Experiment list \<Rightarrow> Task list \<Rightarrow> AppData" where
  "exampleData es ts =
     \<lparr>experiments = es, tasks = ts, schemaVersion = 1, hiddenWeeks = [], settings = None,
      savedSummaries = None\<rparr>"

text \<open>A task with one dependency id removed, all other fields as they were.\<close>

definition withoutDependency :: "string \<Rightarrow> Task \<Rightarrow> Task" where
  "withoutDependency taskId t = t\<lparr>dependencies := filter (\<lambda>d. d \<noteq> taskId) (dependencies t)\<rparr>"

text \<open>A selected draft of the given week offset and recurrence, for concrete instances.\<close>

definition exampleDraft :: "int \<Rightarrow> RecurrenceConfig option \<Rightarrow> EditableTask" where
  "exampleDraft off r =
     \<lparr>plan_id = ''p1'', plan_title = ''Measure'', plan_description = [], weekOffset = off,
      plan_importance = 3, plan_status = DEFAULT, recurrence = r, plan_dependencies = [],
      isSelected = True, originalDependencyIndex = None\<rparr>"

text \<open>A sequence of generated ids, for concrete instances: id0, id1, ...\<close>

definition exampleIds :: "nat \<Rightarrow> string" where
  "exampleIds n = ''id'' @ toString_nat n"

text \<open>
  The dependency graph of a task list: an edge from a task's id to each id it depends
  on. \<open>storedEdges\<close> is the graph the \<^verbatim>\<open>Map\<close> holds, where of several tasks of one id
  the last one counts; with unique ids the two are the same.
\<close>

definition dependencyEdges :: "Task list \<Rightarrow> (string \<times> string) set" where
  "dependencyEdges allTasks =
     {(a, d). \<exists>t \<in> set allTasks. task_id t = a \<and> d \<in> set (dependencies t)}"

definition storedEdges :: "Task list \<Rightarrow> (string \<times> string) set" where
  "storedEdges allTasks =
     {(a, d). \<exists>t. find (\<lambda>t. task_id t = a) (rev allTasks) = Some t \<and> d \<in> set (dependencies t)}"

text \<open>A directed cycle is reachable from \<open>x\<close>: some node reachable from \<open>x\<close> lies on a cycle.\<close>

definition cycleReachable :: "(string \<times> string) set \<Rightarrow> string \<Rightarrow> bool" where
  "cycleReachable E x = (\<exists>y. (x, y) \<in> E\<^sup>* \<and> (y, y) \<in> E\<^sup>+)"

text \<open>The graph of an adjacency map, and the invariant of the depth-first search.\<close>

definition edges :: "adjacency \<Rightarrow> (string \<times> string) set" where
  "edges adj = {(a, b). b \<in> set (neighbors adj a)}"

definition settled :: "(string \<times> string) set \<Rightarrow> string set \<Rightarrow> bool" where
  "settled E B = ((\<forall>b \<in> B. \<forall>c. (b, c) \<in> E \<longrightarrow> c \<in> B) \<and> (\<forall>b \<in> B. (b, b) \<notin> E\<^sup>+))"

definition post_isCyclic ::
  "adjacency \<Rightarrow> string \<Rightarrow> string set \<times> string set \<Rightarrow> bool \<times> string set \<times> string set \<Rightarrow> bool" where
  "post_isCyclic adj c st r =
     (if fst r then cycleReachable (edges adj) c
      else snd (snd r) = snd st \<and> fst st \<subseteq> fst (snd r) \<and> c \<in> fst (snd r) \<and>
           settled (edges adj) (fst (snd r) - snd st))"

definition post_neighbors ::
  "adjacency \<Rightarrow> string \<Rightarrow> string list \<Rightarrow> string set \<times> string set \<Rightarrow>
   bool \<times> string set \<times> string set \<Rightarrow> bool" where
  "post_neighbors adj c ns st r =
     (if fst r then cycleReachable (edges adj) c
      else snd (snd r) = snd st \<and> fst st \<subseteq> fst (snd r) \<and> set ns \<subseteq> fst (snd r) - snd st \<and>
           settled (edges adj) (fst (snd r) - snd st))"

definition pre_state :: "adjacency \<Rightarrow> string \<Rightarrow> string set \<times> string set \<Rightarrow> bool" where
  "pre_state adj c st =
     (snd st \<subseteq> fst st \<and> (\<forall>s \<in> snd st. (s, c) \<in> (edges adj)\<^sup>*) \<and>
      settled (edges adj) (fst st - snd st))"

section \<open>Calendar arithmetic: lemmas\<close>

lemma div_succ: "(x + 1) div c = x div c + (if (x + 1) mod c = 0 then 1 else 0)" if "0 < c" for x c :: int
proof (cases "(x + 1) mod c = 0")
  case True
  then obtain k where k: "x + 1 = c * k" by (meson mod_eq_0_iff_dvd dvdE)
  then have x: "x = (c - 1) + c * (k - 1)" by (simp add: algebra_simps)
  have "x div c = k - 1"
    apply (subst x) using that by (simp add: div_pos_pos_trivial)
  moreover have "(x + 1) div c = k" using k that by simp
  ultimately show ?thesis using True by simp
next
  case False
  have r: "0 \<le> x mod c" "x mod c < c" using that by simp_all
  have "x mod c \<noteq> c - 1"
  proof
    assume "x mod c = c - 1"
    then have "(x + 1) mod c = (c - 1 + 1) mod c" by (metis mod_add_left_eq)
    then show False using False by simp
  qed
  then have lt: "0 \<le> x mod c + 1" "x mod c + 1 < c" using r by linarith+
  have "(x + 1) div c = x div c"
    using div_mult_self2[of c "x mod c + 1" "x div c"] that lt
    by (simp add: div_pos_pos_trivial)
  then show ?thesis using False by simp
qed

lemma m4: "(y - 1968) mod 4 = y mod (4::int)"
  using mod_mult_self1[of y "-492" 4] by simp
lemma m100: "(y - 1900) mod 100 = y mod (100::int)"
  using mod_mult_self1[of y "-19" 100] by simp
lemma m400: "(y - 1600) mod 400 = y mod (400::int)"
  using mod_mult_self1[of y "-4" 400] by simp
lemma d400: "y mod 400 = 0 \<Longrightarrow> y mod 100 = (0::int)"
  by (metis dvd_trans mod_eq_0_iff_dvd dvd_triv_left[of 100 4] mult.commute numeral_times_numeral semiring_norm(12,13) num.simps)
lemma d100: "y mod 100 = 0 \<Longrightarrow> y mod 4 = (0::int)"
  by presburger

lemma DayFromYear_Suc: "DayFromYear (y + 1) = DayFromYear y + DaysInYear y"
proof -
  have a: "(y + 1 - 1969) div 4 = (y - 1969) div 4 + (if y mod 4 = 0 then 1 else 0)"
    using div_succ[of 4 "y - 1969"] m4[of y] by (simp add: algebra_simps)
  have b: "(y + 1 - 1901) div 100 = (y - 1901) div 100 + (if y mod 100 = 0 then 1 else 0)"
    using div_succ[of 100 "y - 1901"] m100[of y] by (simp add: algebra_simps)
  have c: "(y + 1 - 1601) div 400 = (y - 1601) div 400 + (if y mod 400 = 0 then 1 else 0)"
    using div_succ[of 400 "y - 1601"] m400[of y] by (simp add: algebra_simps)
  show ?thesis
    unfolding DayFromYear_def DaysInYear_def isLeapYearIndex_def a b c
    using d400[of y] d100[of y] by auto
qed

lemma div_relax_lo: "c * (x div c) \<le> x" if "0 < c" for x c :: int
  using that by (metis mult.commute pos_mod_sign add_le_cancel_left mult_div_mod_eq add.right_neutral)

lemma div_relax_hi: "x < c * (x div c) + c" if "0 < c" for x c :: int
  using that by (metis pos_mod_bound add_less_cancel_left mult_div_mod_eq)

lemma DayFromYear_approx:
  "146097 * y \<le> 400 * DayFromYear y + 287811890"
  "400 * DayFromYear y + 287810290 \<le> 146097 * y"
proof -
  define a b c where "a = (y - 1969) div 4" and "b = (y - 1901) div 100" and "c = (y - 1601) div 400"
  have f: "4 * a \<le> y - 1969" "y - 1969 < 4 * a + 4"
    "100 * b \<le> y - 1901" "y - 1901 < 100 * b + 100"
    "400 * c \<le> y - 1601" "y - 1601 < 400 * c + 400"
    unfolding a_def b_def c_def by (rule div_relax_lo div_relax_hi, simp)+
  have D: "400 * DayFromYear y = 146000 * y - 287620000 + 400 * a - 400 * b + 400 * c"
    unfolding DayFromYear_def a_def b_def c_def by simp
  show "146097 * y \<le> 400 * DayFromYear y + 287811890"
    unfolding D using f by linarith
  show "400 * DayFromYear y + 287810290 \<le> 146097 * y"
    unfolding D using f by linarith
qed

lemma YearFromDay_bounds:
  "DayFromYear (YearFromDay d) \<le> d \<and> d < DayFromYear (YearFromDay d + 1)"
proof -
  define q where "q = (400 * d) div 146097"
  define y where "y = 1970 + q"
  have q: "146097 * q \<le> 400 * d" "400 * d < 146097 * q + 146097"
    using div_relax_lo[of 146097 "400 * d"] div_relax_hi[of 146097 "400 * d"] by (simp_all add: q_def)
  define y1 y2 where "y1 = y - 1" and "y2 = y + 1 + 1"
  have e: "y1 = q + 1969" "y2 = q + 1972" by (simp_all add: y1_def y2_def y_def)
  have lo: "DayFromYear y1 \<le> d"
    using DayFromYear_approx(2)[of y1] q e by linarith
  have hi: "d < DayFromYear y2"
    using DayFromYear_approx(1)[of y2] q e by linarith
  show ?thesis
    unfolding YearFromDay_def Let_def q_def[symmetric] y_def[symmetric]
    using lo hi by (auto simp: y1_def y2_def)
qed

lemma digit_char_props: "n < 10 \<Longrightarrow> is_digit (digit_char n) \<and> of_char (digit_char n) - 48 = n"
proof -
  assume "n < 10"
  then have "n \<in> {0,1,2,3,4,5,6,7,8,9}" by auto
  then show ?thesis by (auto simp: digit_char_def is_digit_def)
qed

lemma toString_nat_digits: "list_all is_digit (toString_nat n) \<and> parseInt (toString_nat n) = n"
proof (induction n rule: toString_nat.induct)
  case (1 n)
  show ?case
  proof (cases "n < 10")
    case True
    then show ?thesis
      using digit_char_props[of n] by (subst (1 2) toString_nat.simps) (simp add: parseInt_def)
  next
    case False
    then show ?thesis
      using 1 digit_char_props[of "n mod 10"]
      by (subst (1 2) toString_nat.simps) (simp add: parseInt_def)
  qed
qed

lemma toString_nat_length: "n < 10 ^ k \<Longrightarrow> 0 < k \<Longrightarrow> length (toString_nat n) \<le> k"
proof (induction n arbitrary: k rule: toString_nat.induct)
  case (1 n)
  show ?case
  proof (cases "n < 10")
    case True
    then show ?thesis using 1(3) by (subst toString_nat.simps) simp
  next
    case False
    then obtain k' where k: "k = Suc k'" "0 < k'" using 1(2,3)
      by (cases k; cases "k - 1") auto
    have "n div 10 < 10 ^ k'" using 1(2) k by (simp add: less_mult_imp_div_less mult.commute)
    then have "length (toString_nat (n div 10)) \<le> k'" using 1(1)[OF False _ k(2)] by simp
    then show ?thesis using False k by (subst toString_nat.simps) simp
  qed
qed

lemma parseInt_zeros: "parseInt (replicate k CHR ''0'' @ s) = parseInt s"
  by (induction k) (simp_all add: parseInt_def)

lemma addLeadingZeros_props:
  assumes "n < 10 ^ k" "0 < k"
  shows "length (addLeadingZeros n k) = k" "list_all is_digit (addLeadingZeros n k)"
    "parseInt (addLeadingZeros n k) = n"
proof -
  show "length (addLeadingZeros n k) = k"
    using toString_nat_length[OF assms] by (simp add: addLeadingZeros_def)
  show "list_all is_digit (addLeadingZeros n k)"
    using toString_nat_digits[of n] by (auto simp: addLeadingZeros_def list_all_iff is_digit_def)
  show "parseInt (addLeadingZeros n k) = n"
    using toString_nat_digits[of n] by (simp add: addLeadingZeros_def parseInt_zeros)
qed

lemma sum_month_lengths: "sum_list (month_lengths y) = DaysInYear y"
  by (simp add: month_lengths_def DaysInYear_def)

lemma length_month_lengths [simp]: "length (month_lengths y) = 12"
  by (simp add: month_lengths_def)

lemma month_day_correct:
  "0 \<le> n \<Longrightarrow> n < sum_list ls \<Longrightarrow> month_day n ls = (m, d) \<Longrightarrow>
   m < length ls \<and> 1 \<le> d \<and> d \<le> ls ! m \<and> sum_list (take m ls) + d - 1 = n"
proof (induction ls arbitrary: n m d)
  case Nil
  then show ?case by simp
next
  case (Cons l ls)
  show ?case
  proof (cases "n < l")
    case True
    then show ?thesis using Cons.prems by auto
  next
    case False
    obtain m' d' where md: "month_day (n - l) ls = (m', d')" by (cases "month_day (n - l) ls")
    have "m' < length ls \<and> 1 \<le> d' \<and> d' \<le> ls ! m' \<and> sum_list (take m' ls) + d' - 1 = n - l"
      using Cons.IH[OF _ _ md] Cons.prems False by simp
    then show ?thesis using Cons.prems False md by auto
  qed
qed

lemma month_lengths_le: "m < 12 \<Longrightarrow> month_lengths y ! m \<le> 31"
proof -
  assume "m < 12"
  then have "month_lengths y ! m \<in> set (month_lengths y)" by simp
  then show ?thesis by (auto simp: month_lengths_def)
qed

lemma date_components:
  "getMonth t < 12 \<and> 1 \<le> getDate t \<and> getDate t \<le> month_lengths (getFullYear t) ! getMonth t \<and>
   MakeDay (getFullYear t) (getMonth t) (getDate t) = t"
proof -
  define y where "y = YearFromDay t"
  have b: "DayFromYear y \<le> t" "t < DayFromYear y + DaysInYear y"
    using YearFromDay_bounds[of t] DayFromYear_Suc[of y] by (simp_all add: y_def)
  obtain m d where md: "month_day (t - DayFromYear y) (month_lengths y) = (m, d)"
    by (cases "month_day (t - DayFromYear y) (month_lengths y)")
  have "m < length (month_lengths y) \<and> 1 \<le> d \<and> d \<le> month_lengths y ! m \<and>
        sum_list (take m (month_lengths y)) + d - 1 = t - DayFromYear y"
    using month_day_correct[OF _ _ md] b by (simp add: sum_month_lengths)
  then show ?thesis
    by (simp add: getMonth_def getDate_def getFullYear_def MakeDay_def y_def[symmetric] md)
qed

lemma DayFromYear_mono_step: "DayFromYear y < DayFromYear (y + 1)"
  by (simp add: DayFromYear_Suc DaysInYear_def)

lemma DayFromYear_mono: "y \<le> z \<Longrightarrow> DayFromYear y \<le> DayFromYear z"
proof (induction "nat (z - y)" arbitrary: z)
  case 0
  then show ?case by simp
next
  case (Suc k)
  then have "k = nat ((z - 1) - y)" "y \<le> z - 1" by linarith+
  then have "DayFromYear y \<le> DayFromYear (z - 1)" using Suc(1) by blast
  then show ?case using DayFromYear_mono_step[of "z - 1"] by simp
qed

lemma YearFromDay_range:
  "DayFromYear a \<le> t \<Longrightarrow> t < DayFromYear b \<Longrightarrow> a \<le> YearFromDay t \<and> YearFromDay t < b"
proof -
  assume h: "DayFromYear a \<le> t" "t < DayFromYear b"
  have b: "DayFromYear (YearFromDay t) \<le> t" "t < DayFromYear (YearFromDay t + 1)"
    using YearFromDay_bounds[of t] by simp_all
  have "a \<le> YearFromDay t"
  proof (rule ccontr)
    assume "\<not> a \<le> YearFromDay t"
    then have "YearFromDay t + 1 \<le> a" by simp
    from DayFromYear_mono[OF this] show False using h b by linarith
  qed
  moreover have "YearFromDay t < b"
  proof (rule ccontr)
    assume "\<not> YearFromDay t < b"
    then have "b \<le> YearFromDay t" by simp
    from DayFromYear_mono[OF this] show False using h b by linarith
  qed
  ultimately show ?thesis by simp
qed

lemma iso_shape:
  "length Y = 4 \<Longrightarrow> length M = 2 \<Longrightarrow> length D = 2 \<Longrightarrow> s = Y @ ''-'' @ M @ ''-'' @ D \<Longrightarrow>
   length s = 10 \<and> s ! 4 = CHR ''-'' \<and> s ! 7 = CHR ''-'' \<and>
   take 4 s = Y \<and> take 2 (drop 5 s) = M \<and> drop 8 s = D"
  by (simp add: nth_append)

lemma DayFromYear_values: "DayFromYear 0 = - 719528" "DayFromYear 1 = - 719162" "DayFromYear 10000 = 2932897"
  by (simp_all add: DayFromYear_def)

lemma format_formattable:
  "formattable t \<Longrightarrow> format_yyyy_MM_dd (Some t) = Inr (formatISO t)"
  using YearFromDay_range[of 1 t 10000]
  by (simp add: formattable_def format_yyyy_MM_dd_def formatISO_def getFullYear_def Let_def)

lemma parseISO_formatISO:
  assumes "formattable t"
  shows "parseISO (formatISO t) = Some t"
proof -
  have y: "1 \<le> getFullYear t" "getFullYear t < 10000"
    using assms YearFromDay_range[of 1 t 10000] by (simp_all add: formattable_def getFullYear_def)
  have c: "getMonth t < 12" "1 \<le> getDate t" "getDate t \<le> month_lengths (getFullYear t) ! getMonth t"
    "MakeDay (getFullYear t) (getMonth t) (getDate t) = t"
    using date_components[of t] by simp_all
  have d31: "getDate t \<le> 31" using c(1,3) month_lengths_le[of "getMonth t" "getFullYear t"] by linarith
  define Y M D where "Y = addLeadingZeros (nat (getFullYear t)) 4"
    and "M = addLeadingZeros (getMonth t + 1) 2" and "D = addLeadingZeros (nat (getDate t)) 2"
  have Y: "length Y = 4" "list_all is_digit Y" "parseInt Y = nat (getFullYear t)"
    unfolding Y_def using y by (simp_all add: addLeadingZeros_props)
  have M: "length M = 2" "list_all is_digit M" "parseInt M = getMonth t + 1"
    unfolding M_def using c(1) by (simp_all add: addLeadingZeros_props)
  have D: "length D = 2" "list_all is_digit D" "parseInt D = nat (getDate t)"
    unfolding D_def using c(2) d31 by (simp_all add: addLeadingZeros_props)
  have s: "formatISO t = Y @ ''-'' @ M @ ''-'' @ D"
    by (simp add: formatISO_def Y_def M_def D_def)
  note sh = iso_shape[OF Y(1) M(1) D(1) s]
  show ?thesis
    unfolding parseISO_def using sh Y M D y c
    by (simp add: validateDate_def)
qed

lemma parseInt_snoc: "parseInt (s @ [c]) = 10 * parseInt s + (of_char c - 48)"
  by (simp add: parseInt_def)

lemma parseInt_bound: "list_all is_digit s \<Longrightarrow> parseInt s < 10 ^ length s"
proof (induction s rule: rev_induct)
  case Nil
  then show ?case by (simp add: parseInt_def)
next
  case (snoc c s)
  then have "parseInt s < 10 ^ length s" by simp
  moreover have "(of_char c :: nat) - 48 \<le> 9"
  proof -
    have "(of_char c :: nat) \<le> 57" using snoc.prems by (simp add: is_digit_def)
    then show ?thesis by linarith
  qed
  ultimately show ?case by (simp add: parseInt_snoc)
qed

lemma sum_list_take_nth:
  "m < length ls \<Longrightarrow> \<forall>l \<in> set ls. (0::int) \<le> l \<Longrightarrow>
   0 \<le> sum_list (take m ls) \<and> sum_list (take m ls) + ls ! m \<le> sum_list ls"
proof (induction ls arbitrary: m)
  case Nil
  then show ?case by simp
next
  case (Cons l ls)
  show ?case
  proof (cases m)
    case 0
    then show ?thesis using Cons.prems by (simp add: sum_list_nonneg)
  next
    case (Suc k)
    then show ?thesis using Cons.IH[of k] Cons.prems by simp
  qed
qed

lemma MakeDay_bounds:
  assumes "validateDate y m d"
  shows "DayFromYear y \<le> MakeDay y (nat m) d" "MakeDay y (nat m) d < DayFromYear (y + 1)"
proof -
  have m: "nat m < length (month_lengths y)" "1 \<le> d" "d \<le> month_lengths y ! nat m"
    using assms by (auto simp: validateDate_def)
  have nn: "\<forall>l \<in> set (month_lengths y). 0 \<le> l" by (simp add: month_lengths_def)
  note b = sum_list_take_nth[OF m(1) nn]
  show "DayFromYear y \<le> MakeDay y (nat m) d" using b m by (simp add: MakeDay_def)
  show "MakeDay y (nat m) d < DayFromYear (y + 1)"
    using b m by (simp add: MakeDay_def DayFromYear_Suc sum_month_lengths[symmetric])
qed

lemma parseISO_bounds:
  assumes "parseISO s = Some t"
  shows "DayFromYear 0 \<le> t" "t < DayFromYear 10000"
proof -
  define year where "year = int (parseInt (take 4 s))"
  define month where "month = int (parseInt (take 2 (drop 5 s))) - 1"
  define day where "day = int (parseInt (drop 8 s))"
  have c: "length s = 10" "list_all is_digit (take 4 s)" "validateDate year month day"
    "t = MakeDay year (nat month) day"
    using assms unfolding parseISO_def year_def month_def day_def
    by (auto simp: Let_def split: if_splits)
  have "parseInt (take 4 s) < 10 ^ length (take 4 s)" by (rule parseInt_bound[OF c(2)])
  then have y: "0 \<le> year" "year + 1 \<le> 10000" using c(1) by (simp_all add: year_def)
  note b = MakeDay_bounds[OF c(3)]
  show "DayFromYear 0 \<le> t" using DayFromYear_mono[OF y(1)] b(1) c(4) by simp
  show "t < DayFromYear 10000" using DayFromYear_mono[OF y(2)] b(2) c(4) by simp
qed

lemma getDay_range: "0 \<le> getDay t" "getDay t < 7"
  by (simp_all add: getDay_def)

lemma getDay_shift: "getDay (t + 7 * n) = getDay t"
proof -
  have "(t + 4 + 7 * n) mod 7 = (t + 4) mod 7" by (rule mod_mult_self2)
  then show ?thesis by (simp add: getDay_def algebra_simps)
qed

lemma getDay_weekStart: "getDay (weekStart t) = 0"
proof -
  have "(t + 4 - (t + 4) mod 7) mod 7 = 0" by (simp add: minus_mod_eq_mult_div)
  then show ?thesis by (simp add: weekStart_def getDay_def algebra_simps)
qed

lemma weekStart_bounds: "weekStart t \<le> t" "t < weekStart t + 7"
  using getDay_range[of t] by (simp_all add: weekStart_def)

lemma weekStart_shift: "weekStart (t + 7 * n) = weekStart t + 7 * n"
  by (simp add: weekStart_def getDay_shift)

lemma weekStart_idem: "weekStart (weekStart t) = weekStart t"
  using getDay_weekStart[of t] by (simp add: weekStart_def)

lemma startOfWeek_Some:
  "\<bar>weekStart t\<bar> \<le> 100000000 \<Longrightarrow> startOfWeek (Some t) = Some (weekStart t)"
  using getDay_range[of t] by (simp add: startOfWeek_def weekStart_def TimeClip_def Let_def)

lemma formattable_clip: "formattable t \<Longrightarrow> \<bar>t\<bar> \<le> 100000000"
  unfolding formattable_def DayFromYear_values by linarith

lemma normalizeToSunday_Some:
  assumes "formattable (weekStart t)"
  shows "normalizeToSunday (DateObj (Some t)) = Inr (formatISO (weekStart t))"
  using assms startOfWeek_Some[OF formattable_clip[OF assms]]
  by (simp add: normalizeToSunday_def format_formattable)

lemma normalizeToSunday_Str:
  assumes "parseISO s = Some t" "formattable (weekStart t)"
  shows "normalizeToSunday (DateStr s) = Inr (formatISO (weekStart t))"
  using assms startOfWeek_Some[OF formattable_clip[OF assms(2)]]
  by (simp add: normalizeToSunday_def format_formattable)

lemma addWeeks_Some:
  "\<bar>t + 7 * n\<bar> \<le> 100000000 \<Longrightarrow> addWeeks (Some t) n = Some (t + 7 * n)"
  by (simp add: addWeeks_def addDays_def TimeClip_def mult.commute)

lemma dateFromOffset_Some:
  assumes "parseISO start = Some s" "formattable (weekStart s + 7 * n)"
  shows "dateFromOffset start n = Inr (formatISO (weekStart s + 7 * n))"
proof -
  have f: "formattable (weekStart (s + 7 * n))" using assms(2) by (simp add: weekStart_shift)
  have "\<bar>s + 7 * n\<bar> \<le> 100000000"
    using f weekStart_bounds[of "s + 7 * n"]
    unfolding formattable_def DayFromYear_values by linarith
  then show ?thesis
    using assms(1) normalizeToSunday_Some[OF f]
    by (simp add: dateFromOffset_def addWeeks_Some weekStart_shift)
qed

lemma trunc_div_weeks:
  assumes "0 \<le> a" "a < 7"
  shows "trunc_div (7 * n - a) 7 = (if a = 0 \<or> n \<le> 0 then n else n - 1)"
proof (cases "0 \<le> 7 * n - a")
  case True
  then show ?thesis using assms unfolding trunc_div_def by (simp; presburger)
next
  case False
  then show ?thesis using assms unfolding trunc_div_def by (simp; presburger)
qed

lemma trunc_div_calendar:
  assumes "0 \<le> a" "a < 7" "0 \<le> b" "b < 7"
  shows "trunc_div (7 * k + b - a) 7 = k \<longleftrightarrow>
         (0 \<le> 7 * k + b - a \<and> a \<le> b) \<or> (7 * k + b - a < 0 \<and> b \<le> a)"
proof (cases "0 \<le> 7 * k + b - a")
  case True
  then show ?thesis using assms unfolding trunc_div_def by (simp; presburger)
next
  case False
  then show ?thesis using assms unfolding trunc_div_def by (simp; presburger)
qed

section \<open>Properties of the blocked-status derivation\<close>

lemma find_task_some:
  "find (\<lambda>t. task_id t = d) ts = Some t \<Longrightarrow> t \<in> set ts \<and> task_id t = d"
  by (induction ts) (auto split: if_splits)

lemma find_task_distinct:
  "distinct (map task_id ts) \<Longrightarrow> t \<in> set ts \<Longrightarrow>
   find (\<lambda>u. task_id u = task_id t) ts = Some t"
  by (induction ts) (auto simp: image_iff)

text \<open>
  Claim C6. \<^const>\<open>isTaskBlocked\<close> is true exactly when the task has a dependency id
  that resolves (by \<^verbatim>\<open>find\<close>: the first task of that id) to a task of the list that
  is not completed; where the ids of the list are unique, that is: some task of the list
  carries the dependency's id and is not completed. A dependency id that no task of the
  list carries never blocks: a task all of whose dependency ids are absent is not
  blocked.
\<close>

theorem isTaskBlocked_iff:
  "(isTaskBlocked task allTasks \<longleftrightarrow>
      dependencies task \<noteq> [] \<and>
      (\<exists>d \<in> set (dependencies task). \<exists>t.
          find (\<lambda>t. task_id t = d) allTasks = Some t \<and> completed t = False))
   \<and> (distinct (map task_id allTasks) \<longrightarrow>
      (isTaskBlocked task allTasks \<longleftrightarrow>
        dependencies task \<noteq> [] \<and>
        (\<exists>d \<in> set (dependencies task). \<exists>t \<in> set allTasks.
            task_id t = d \<and> completed t = False)))
   \<and> ((\<forall>d \<in> set (dependencies task). d \<notin> task_id ` set allTasks) \<longrightarrow>
        isTaskBlocked task allTasks = False)"
proof (intro conjI impI)
  show first: "isTaskBlocked task allTasks \<longleftrightarrow>
      dependencies task \<noteq> [] \<and>
      (\<exists>d \<in> set (dependencies task). \<exists>t.
          find (\<lambda>t. task_id t = d) allTasks = Some t \<and> completed t = False)"
    by (auto simp: isTaskBlocked_def list_ex_iff split: option.splits)
  show "isTaskBlocked task allTasks \<longleftrightarrow>
        dependencies task \<noteq> [] \<and>
        (\<exists>d \<in> set (dependencies task). \<exists>t \<in> set allTasks.
            task_id t = d \<and> completed t = False)"
    if "distinct (map task_id allTasks)"
    unfolding first using that
    by (metis find_task_some find_task_distinct)
  show "isTaskBlocked task allTasks = False"
    if "\<forall>d \<in> set (dependencies task). d \<notin> task_id ` set allTasks"
    unfolding first using that find_task_some by blast
qed

text \<open>
  Instances of C6: a task whose dependency is present and open is blocked; one whose
  dependency is completed, or is in no task of the list, is not.
\<close>

theorem isTaskBlocked_iff_witness:
  "distinct (map task_id [exampleTask ''d'' False [], exampleTask ''c'' True []])
   \<and> isTaskBlocked (exampleTask ''t'' False [''d''])
        [exampleTask ''d'' False [], exampleTask ''c'' True []]
   \<and> isTaskBlocked (exampleTask ''t'' False [''c''])
        [exampleTask ''d'' False [], exampleTask ''c'' True []] = False
   \<and> isTaskBlocked (exampleTask ''t'' False [''gone''])
        [exampleTask ''d'' False [], exampleTask ''c'' True []] = False"
  using
    isTaskBlocked_iff [of "exampleTask ''t'' False [''d'']"
      "[exampleTask ''d'' False [], exampleTask ''c'' True []]"]
    isTaskBlocked_iff [of "exampleTask ''t'' False [''c'']"
      "[exampleTask ''d'' False [], exampleTask ''c'' True []]"]
    isTaskBlocked_iff [of "exampleTask ''t'' False [''gone'']"
      "[exampleTask ''d'' False [], exampleTask ''c'' True []]"]
  by (simp add: exampleTask_def)

section \<open>Properties of task deletion\<close>

lemma handleDeleteTask_tasks:
  "tasks (handleDeleteTask taskId prev) =
     map (withoutDependency taskId) (filter (\<lambda>T. task_id T \<noteq> taskId) (tasks prev))"
proof -
  have "(if taskId \<in> set (dependencies t)
         then t\<lparr>dependencies := filter (\<lambda>d. d \<noteq> taskId) (dependencies t)\<rparr> else t)
        = withoutDependency taskId t" for t
  proof (cases "taskId \<in> set (dependencies t)")
    case True
    then show ?thesis by (simp add: withoutDependency_def)
  next
    case False
    then have "filter (\<lambda>d. d \<noteq> taskId) (dependencies t) = dependencies t"
      by (intro filter_True) auto
    then show ?thesis using False by (simp add: withoutDependency_def)
  qed
  then show ?thesis by (simp add: handleDeleteTask_def Let_def)
qed

text \<open>
  Claim C9. Deleting the task of id \<open>taskId\<close> leaves, in their order, the tasks of every
  other id, each with \<open>taskId\<close> removed from its dependencies and no other field
  changed; so no remaining task has the id \<open>taskId\<close> or depends on it, every task of
  another id is still there, and its other dependencies are kept. Where the ids of the
  list are unique and \<open>D\<close> is the task of id \<open>taskId\<close>, every task other than \<open>D\<close> is
  still there. Nothing but the task list of the data changes.
\<close>

theorem handleDeleteTask_no_dangling:
  "tasks (handleDeleteTask taskId prev) =
     map (withoutDependency taskId) (filter (\<lambda>T. task_id T \<noteq> taskId) (tasks prev))
   \<and> (\<forall>t \<in> set (tasks (handleDeleteTask taskId prev)).
        task_id t \<noteq> taskId \<and> taskId \<notin> set (dependencies t))
   \<and> (\<forall>T \<in> set (tasks prev). task_id T \<noteq> taskId \<longrightarrow>
        withoutDependency taskId T \<in> set (tasks (handleDeleteTask taskId prev)))
   \<and> (\<forall>D \<in> set (tasks prev). distinct (map task_id (tasks prev)) \<longrightarrow> task_id D = taskId \<longrightarrow>
        (\<forall>T \<in> set (tasks prev). T \<noteq> D \<longrightarrow>
           withoutDependency taskId T \<in> set (tasks (handleDeleteTask taskId prev))))
   \<and> (\<forall>T. withoutDependency taskId T = T\<lparr>dependencies := dependencies (withoutDependency taskId T)\<rparr>
          \<and> set (dependencies (withoutDependency taskId T)) = set (dependencies T) - {taskId})
   \<and> handleDeleteTask taskId prev = prev\<lparr>tasks := tasks (handleDeleteTask taskId prev)\<rparr>"
proof (intro conjI ballI impI allI)
  show "tasks (handleDeleteTask taskId prev) =
     map (withoutDependency taskId) (filter (\<lambda>T. task_id T \<noteq> taskId) (tasks prev))"
    by (rule handleDeleteTask_tasks)
  show "task_id t \<noteq> taskId" if "t \<in> set (tasks (handleDeleteTask taskId prev))" for t
    using that by (auto simp: handleDeleteTask_tasks withoutDependency_def)
  show "taskId \<notin> set (dependencies t)" if "t \<in> set (tasks (handleDeleteTask taskId prev))" for t
    using that by (auto simp: handleDeleteTask_tasks withoutDependency_def)
  show "withoutDependency taskId T \<in> set (tasks (handleDeleteTask taskId prev))"
    if "T \<in> set (tasks prev)" "task_id T \<noteq> taskId" for T
    using that by (simp add: handleDeleteTask_tasks)
  show "withoutDependency taskId T \<in> set (tasks (handleDeleteTask taskId prev))"
    if "D \<in> set (tasks prev)" "distinct (map task_id (tasks prev))" "task_id D = taskId"
      "T \<in> set (tasks prev)" "T \<noteq> D" for D T
  proof -
    have "task_id T \<noteq> task_id D"
      using that(1,2,4,5) by (meson distinct_map inj_on_def)
    then show ?thesis using that by (simp add: handleDeleteTask_tasks)
  qed
  show "withoutDependency taskId T = T\<lparr>dependencies := dependencies (withoutDependency taskId T)\<rparr>" for T
    by (simp add: withoutDependency_def)
  show "set (dependencies (withoutDependency taskId T)) = set (dependencies T) - {taskId}" for T
    by (auto simp: withoutDependency_def)
  show "handleDeleteTask taskId prev = prev\<lparr>tasks := tasks (handleDeleteTask taskId prev)\<rparr>"
    by (simp add: handleDeleteTask_def Let_def)
qed

text \<open>
  An instance of C9: T depends on D and on X; deleting D keeps T and X, and T then
  depends on X alone.
\<close>

theorem handleDeleteTask_no_dangling_witness:
  "exampleTask ''D'' False [] \<in> set (tasks (exampleData []
      [exampleTask ''D'' False [], exampleTask ''T'' False [''D'', ''X''], exampleTask ''X'' True []]))
   \<and> distinct (map task_id (tasks (exampleData []
      [exampleTask ''D'' False [], exampleTask ''T'' False [''D'', ''X''], exampleTask ''X'' True []])))
   \<and> tasks (handleDeleteTask ''D'' (exampleData []
      [exampleTask ''D'' False [], exampleTask ''T'' False [''D'', ''X''], exampleTask ''X'' True []]))
     = [exampleTask ''T'' False [''X''], exampleTask ''X'' True []]"
  using handleDeleteTask_no_dangling [of "''D''" "exampleData []
      [exampleTask ''D'' False [], exampleTask ''T'' False [''D'', ''X''], exampleTask ''X'' True []]"]
  by (simp add: exampleData_def exampleTask_def withoutDependency_def)

section \<open>Properties of the week arithmetic\<close>

lemma parse_2024_01_10: "parseISO ''2024-01-10'' = Some 19732"
  by code_simp

lemma parse_2024_01_07: "parseISO ''2024-01-07'' = Some 19729"
  by code_simp

lemma parse_2024_01_13: "parseISO ''2024-01-13'' = Some 19735"
  by code_simp

lemma parse_2024_01_14: "parseISO ''2024-01-14'' = Some 19736"
  by code_simp

lemma normalize_2024_01_10: "normalizeToSunday (DateStr ''2024-01-10'') = Inr ''2024-01-07''"
  by code_simp

text \<open>
  Claim C8, as stated, fails at the start of year 1: 0001-01-01 is a valid date, a
  Monday, and its week begins on the Sunday before, the last day of year 0. The
  \<^verbatim>\<open>yyyy\<close> token prints year 0 as 0001, so \<^verbatim>\<open>normalizeToSunday("0001-01-01")\<close> is
  \<^verbatim>\<open>"0001-12-31"\<close>: a string that reads as a day 364 days after the date, not the
  Sunday that begins its week, and that is not kept by a second normalisation.
\<close>

theorem normalizeToSunday_counterexample:
  "parseISO ''0001-01-01'' = Some (- 719162)
   \<and> weekStart (- 719162) = - 719163
   \<and> normalizeToSunday (DateStr ''0001-01-01'') = Inr ''0001-12-31''
   \<and> parseISO ''0001-12-31'' = Some (- 718798)
   \<and> normalizeToSunday (DateStr ''0001-12-31'') = Inr ''0001-12-30''"
  by code_simp

text \<open>
  Claim C8, amended. \<^const>\<open>normalizeToSunday\<close> of a string is
  \<^const>\<open>normalizeToSunday\<close> of the date it parses to, and on the Invalid Date it throws
  a \<^verbatim>\<open>RangeError\<close>. For a date \<open>t\<close>, given as a \<^verbatim>\<open>Date\<close>, whose week begins in
  the years 1 to 9999, it returns the \<^verbatim>\<open>yyyy-MM-dd\<close> string of \<open>weekStart t\<close>: this
  day is a Sunday (\<open>getDay\<close> is 0, the week start being fixed at Sunday) and begins
  the week of \<open>t\<close> (\<open>weekStart t \<le> t < weekStart t + 7\<close>); the string parses back to
  that day, and normalising it again returns it unchanged.
  \<^verbatim>\<open>normalizeToSunday("2024-01-10")\<close> is \<^verbatim>\<open>"2024-01-07"\<close>.
\<close>

theorem normalizeToSunday_canonical:
  "(formattable (weekStart t) \<longrightarrow>
      normalizeToSunday (DateObj (Some t)) = Inr (formatISO (weekStart t))
      \<and> parseISO (formatISO (weekStart t)) = Some (weekStart t)
      \<and> normalizeToSunday (DateStr (formatISO (weekStart t))) = Inr (formatISO (weekStart t)))
   \<and> getDay (weekStart t) = 0 \<and> weekStart t \<le> t \<and> t < weekStart t + 7
   \<and> normalizeToSunday (DateStr s) = normalizeToSunday (DateObj (parseISO s))
   \<and> normalizeToSunday (DateObj None) = Inl RangeError
   \<and> normalizeToSunday (DateStr ''2024-01-10'') = Inr ''2024-01-07''"
proof (intro conjI impI)
  assume a: "formattable (weekStart t)"
  let ?w = "weekStart t"
  have f: "formattable (weekStart ?w)" using a by (simp add: weekStart_idem)
  show "normalizeToSunday (DateObj (Some t)) = Inr (formatISO ?w)"
    using a by (rule normalizeToSunday_Some)
  show 2: "parseISO (formatISO ?w) = Some ?w"
    using a by (rule parseISO_formatISO)
  show "normalizeToSunday (DateStr (formatISO ?w)) = Inr (formatISO ?w)"
    using normalizeToSunday_Str[OF 2 f] by (simp add: weekStart_idem)
next
  show "getDay (weekStart t) = 0" by (rule getDay_weekStart)
  show "weekStart t \<le> t" by (rule weekStart_bounds)
  show "t < weekStart t + 7" by (rule weekStart_bounds)
  show "normalizeToSunday (DateStr s) = normalizeToSunday (DateObj (parseISO s))"
    by (simp add: normalizeToSunday_def)
  show "normalizeToSunday (DateObj None) = Inl RangeError"
    by (simp add: normalizeToSunday_def startOfWeek_def format_yyyy_MM_dd_def)
  show "normalizeToSunday (DateStr ''2024-01-10'') = Inr ''2024-01-07''"
    by (rule normalize_2024_01_10)
qed

text \<open>
  An instance of the amended C8: Wednesday 2024-01-10, day 19732, in the week of Sunday
  2024-01-07, day 19729, given as a \<^verbatim>\<open>Date\<close> and as a string.
\<close>

theorem normalizeToSunday_canonical_witness:
  "formattable (weekStart 19732) \<and> weekStart 19732 = 19729
   \<and> formatISO 19729 = ''2024-01-07''
   \<and> normalizeToSunday (DateObj (Some 19732)) = Inr ''2024-01-07''
   \<and> parseISO ''2024-01-07'' = Some 19729
   \<and> normalizeToSunday (DateStr ''2024-01-07'') = Inr ''2024-01-07''
   \<and> normalizeToSunday (DateStr ''2024-01-10'') = normalizeToSunday (DateObj (Some 19732))"
proof -
  have p: "formattable (weekStart 19732)" "weekStart 19732 = 19729"
    "formatISO 19729 = ''2024-01-07''" "parseISO ''2024-01-10'' = Some 19732"
    by code_simp+
  show ?thesis
    using normalizeToSunday_canonical [of 19732 "''2024-01-10''"] p by simp
qed

text \<open>
  Claim C2, as stated, fails where the start date is not a Sunday and the offset is
  positive: from Wednesday 2024-01-10, offset 1 gives the week of Sunday 2024-01-14,
  which is four days later, and the offset read back is 0.
\<close>

theorem offset_roundtrip_counterexample:
  "dateFromOffset ''2024-01-10'' 1 = Inr ''2024-01-14''
   \<and> weekOffsetOf ''2024-01-10'' ''2024-01-14'' = Some 0
   \<and> weekOffsetOf ''2024-01-10'' ''2024-01-14'' \<noteq> Some 1"
  by code_simp

text \<open>
  Claim C2, amended. For a valid start date and an offset \<open>n\<close> whose week lies in
  the years 1 to 9999, \<open>dateFromOffset\<close> returns the string of the Sunday \<open>n\<close> weeks
  after the Sunday of the start's week, and the offset read back from it is \<open>n\<close> if
  the start is a Sunday or \<open>n \<le> 0\<close>, and \<open>n - 1\<close> otherwise: the round trip holds
  exactly when the start date is a Sunday or the offset is not positive.
\<close>

theorem offset_roundtrip:
  "parseISO start = Some s \<Longrightarrow> formattable (weekStart s + 7 * n) \<Longrightarrow>
   \<exists>target. dateFromOffset start n = Inr target \<and>
     parseISO target = Some (weekStart s + 7 * n) \<and>
     weekOffsetOf start target = Some (if getDay s = 0 \<or> n \<le> 0 then n else n - 1) \<and>
     (weekOffsetOf start target = Some n \<longleftrightarrow> getDay s = 0 \<or> n \<le> 0)"
proof -
  assume p: "parseISO start = Some s" and f: "formattable (weekStart s + 7 * n)"
  let ?target = "formatISO (weekStart s + 7 * n)"
  have 1: "dateFromOffset start n = Inr ?target" by (rule dateFromOffset_Some[OF p f])
  have 2: "parseISO ?target = Some (weekStart s + 7 * n)" by (rule parseISO_formatISO[OF f])
  have e: "weekStart s + 7 * n - s = 7 * n - getDay s" by (simp add: weekStart_def)
  have "trunc_div (weekStart s + 7 * n - s) 7 = (if getDay s = 0 \<or> n \<le> 0 then n else n - 1)"
    unfolding e using getDay_range[of s] by (intro trunc_div_weeks)
  then have 3: "weekOffsetOf start ?target = Some (if getDay s = 0 \<or> n \<le> 0 then n else n - 1)"
    by (simp add: weekOffsetOf_def differenceInWeeks_def differenceInDays_def p 2)
  have 4: "weekOffsetOf start ?target = Some n \<longleftrightarrow> getDay s = 0 \<or> n \<le> 0"
    unfolding 3 by simp
  from 1 2 3 4 show ?thesis by blast
qed

text \<open>
  Instances of the amended C2: from Sunday 2024-01-07 the offset 10 is read back as 10;
  from Wednesday 2024-01-10 the offset \<open>-1\<close> is read back as \<open>-1\<close>.
\<close>

theorem offset_roundtrip_witness:
  "parseISO ''2024-01-07'' = Some 19729 \<and> formattable (weekStart 19729 + 7 * 10)
   \<and> (\<exists>target. dateFromOffset ''2024-01-07'' 10 = Inr target \<and>
         weekOffsetOf ''2024-01-07'' target = Some 10)
   \<and> parseISO ''2024-01-10'' = Some 19732 \<and> formattable (weekStart 19732 + 7 * (- 1))
   \<and> (\<exists>target. dateFromOffset ''2024-01-10'' (- 1) = Inr target \<and>
         weekOffsetOf ''2024-01-10'' target = Some (- 1))"
proof -
  have a: "parseISO ''2024-01-07'' = Some 19729" "formattable (weekStart 19729 + 7 * 10)"
    by code_simp+
  have b: "parseISO ''2024-01-10'' = Some 19732" "formattable (weekStart 19732 + 7 * (- 1))"
    by code_simp+
  have "getDay 19729 = 0" by code_simp
  then show ?thesis
    using offset_roundtrip [OF a] offset_roundtrip [OF b] a b by auto
qed

text \<open>
  Claim C3, as stated, fails: Sunday 2024-01-14 lies in the calendar week after that of
  Saturday 2024-01-13, but the offset computed is 0, the two days being less than seven
  days apart.
\<close>

theorem weekOffsetOf_counterexample:
  "parseISO ''2024-01-13'' = Some 19735 \<and> parseISO ''2024-01-14'' = Some 19736
   \<and> calendarWeekDifference 19736 19735 = 1
   \<and> weekOffsetOf ''2024-01-13'' ''2024-01-14'' = Some 0"
  by code_simp

lemma weekStart_diff: "weekStart t - weekStart s = 7 * calendarWeekDifference t s"
proof -
  have "(weekStart t + 4) mod 7 = 0" "(weekStart s + 4) mod 7 = 0"
    using getDay_weekStart[of t] getDay_weekStart[of s] by (simp_all add: getDay_def)
  then have "(weekStart t - weekStart s) mod 7 = 0" by presburger
  then show ?thesis unfolding calendarWeekDifference_def by presburger
qed

text \<open>
  Claim C3, amended. For valid start and target dates the offset computed is the
  number of days from start to target divided by 7 and rounded toward zero. It is the
  difference of their calendar weeks exactly when the target is on or after the start
  and its day of the week is not earlier than the start's, or the target is before the
  start and its day of the week is not later; so it is whenever both are Sundays.
\<close>

theorem weekOffsetOf_truncates:
  "parseISO start = Some s \<Longrightarrow> parseISO target = Some t \<Longrightarrow>
   weekOffsetOf start target = Some (trunc_div (t - s) 7)
   \<and> (weekOffsetOf start target = Some (calendarWeekDifference t s) \<longleftrightarrow>
        (s \<le> t \<and> getDay s \<le> getDay t) \<or> (t < s \<and> getDay t \<le> getDay s))
   \<and> (getDay s = 0 \<and> getDay t = 0 \<longrightarrow>
        weekOffsetOf start target = Some (calendarWeekDifference t s))"
proof -
  assume p: "parseISO start = Some s" "parseISO target = Some t"
  define k where "k = calendarWeekDifference t s"
  have 1: "weekOffsetOf start target = Some (trunc_div (t - s) 7)"
    by (simp add: weekOffsetOf_def differenceInWeeks_def differenceInDays_def p)
  have e: "t - s = 7 * k + getDay t - getDay s"
    using weekStart_diff[of t s] by (simp add: weekStart_def k_def)
  have 2: "trunc_div (t - s) 7 = k \<longleftrightarrow>
           (s \<le> t \<and> getDay s \<le> getDay t) \<or> (t < s \<and> getDay t \<le> getDay s)"
    using trunc_div_calendar[of "getDay s" "getDay t" k] getDay_range[of s] getDay_range[of t] e
    by auto
  have 3: "trunc_div (t - s) 7 = k" if "getDay s = 0 \<and> getDay t = 0"
    using 2 that by auto
  show ?thesis using 1 2 3 by (simp add: k_def)
qed

text \<open>
  Instances of the amended C3: between the Sundays 2024-01-07 and 2024-01-14 the offset
  is 1, the difference of the calendar weeks.
\<close>

theorem weekOffsetOf_truncates_witness:
  "parseISO ''2024-01-07'' = Some 19729 \<and> parseISO ''2024-01-14'' = Some 19736
   \<and> getDay 19729 = 0 \<and> getDay 19736 = 0
   \<and> weekOffsetOf ''2024-01-07'' ''2024-01-14'' = Some (trunc_div (19736 - 19729) 7)
   \<and> weekOffsetOf ''2024-01-07'' ''2024-01-14'' = Some (calendarWeekDifference 19736 19729)
   \<and> calendarWeekDifference 19736 19729 = 1"
proof -
  have v: "getDay 19729 = 0" "getDay 19736 = 0" "calendarWeekDifference 19736 19729 = 1"
    by code_simp+
  show ?thesis
    using weekOffsetOf_truncates [OF parse_2024_01_07 parse_2024_01_14] v
    by (simp add: parse_2024_01_07 parse_2024_01_14 trunc_div_def)
qed

section \<open>Properties of the timeline shift\<close>







section \<open>Properties of the plan expansion\<close>

lemma recurrence_loop_zero_interval:
  assumes "recurrence_loop uuid eid sd draft i d g w c k acc = Some y"
  shows "\<not> (i = 0 \<and> w < d \<and> (\<exists>wk. dateFromOffset sd (weekOffset draft + w) = Inr wk))"
proof (rule recurrence_loop.raw_induct[where P = "\<lambda>uuid eid sd draft i d g w c k acc y.
      \<not> (i = 0 \<and> w < d \<and> (\<exists>wk. dateFromOffset sd (weekOffset draft + w) = Inr wk))", OF _ assms])
  fix loop :: "(nat \<Rightarrow> string) \<Rightarrow> string \<Rightarrow> string \<Rightarrow> EditableTask \<Rightarrow> int \<Rightarrow> int \<Rightarrow> string \<Rightarrow>
   int \<Rightarrow> nat \<Rightarrow> nat \<Rightarrow> Task list \<Rightarrow> (error + Task list \<times> nat) option"
  fix uuid eid sd draft i d g w c k acc y
  assume IH: "\<And>uuid eid sd draft i d g w c k acc y. loop uuid eid sd draft i d g w c k acc = Some y \<Longrightarrow>
      \<not> (i = 0 \<and> w < d \<and> (\<exists>wk. dateFromOffset sd (weekOffset draft + w) = Inr wk))"
  assume body: "(if w < d
      then case generateUUID uuid k of
           (newId, k') \<Rightarrow>
             case normalizeToSunday (DateObj (addWeeks (parseISO sd) (weekOffset draft + w))) of
               Inl e \<Rightarrow> Some (Inl e)
             | Inr wk \<Rightarrow> loop uuid eid sd draft i d g (w + i) (Suc c) k'
                  (acc @ [recurringTask eid draft g newId c wk])
      else Some (Inr (acc, k))) = Some y"
  show "\<not> (i = 0 \<and> w < d \<and> (\<exists>wk. dateFromOffset sd (weekOffset draft + w) = Inr wk))"
  proof
    assume a: "i = 0 \<and> w < d \<and> (\<exists>wk. dateFromOffset sd (weekOffset draft + w) = Inr wk)"
    then obtain wk where wk: "normalizeToSunday (DateObj (addWeeks (parseISO sd) (weekOffset draft + w))) = Inr wk"
      by (auto simp: dateFromOffset_def)
    have "loop uuid eid sd draft i d g (w + i) (Suc c) (Suc k)
            (acc @ [recurringTask eid draft g (uuid k) c wk]) = Some y"
      using body a wk by (simp add: generateUUID_def)
    from IH[OF this] show False using a by simp
  qed
qed







text \<open>
  Claim C4 fails on the code for the interval 0: with \<^verbatim>\<open>intervalWeeks = 0\<close> and
  \<^verbatim>\<open>durationWeeks = 1\<close> the loop variable never moves, no error is reported and the
  expansion of the entry never returns.
\<close>

theorem expandDraft_zero_interval_diverges:
  "expandDraft exampleIds ''e1'' ''2024-01-07''
     (exampleDraft 0 (Some \<lparr>intervalWeeks = 0, durationWeeks = 1\<rparr>)) ([], 0) = None"
proof (rule ccontr)
  assume "expandDraft exampleIds ''e1'' ''2024-01-07''
     (exampleDraft 0 (Some \<lparr>intervalWeeks = 0, durationWeeks = 1\<rparr>)) ([], 0) \<noteq> None"
  then obtain y where "recurrence_loop exampleIds ''e1'' ''2024-01-07''
      (exampleDraft 0 (Some \<lparr>intervalWeeks = 0, durationWeeks = 1\<rparr>)) 0 1 (exampleIds 0) 0 0 (Suc 0) []
      = Some y"
    by (auto simp: expandDraft_def exampleDraft_def generateUUID_def)
  from recurrence_loop_zero_interval[OF this]
  have "\<not> (\<exists>wk. dateFromOffset ''2024-01-07'' (0 + 0) = Inr wk)"
    by (simp add: exampleDraft_def)
  moreover have "dateFromOffset ''2024-01-07'' (0 + 0) = Inr ''2024-01-07''" by code_simp
  ultimately show False by blast
qed


section \<open>Properties of the import\<close>

text \<open>
  The tasks the import is to return, said without the loop. \<open>assignedIds\<close> gives every
  task of the input, in order, its id: its own \<^verbatim>\<open>id\<close> when that is truthy, and
  otherwise the next generated id, \<open>k\<close> ids having been generated before.
  \<open>generatedCount\<close> counts the elements that need a generated id.
\<close>

fun assignedIds :: "(nat \<Rightarrow> string) \<Rightarrow> jsval list \<Rightarrow> nat \<Rightarrow> jsval list" where
  "assignedIds uuid [] k = []"
| "assignedIds uuid (t # ts) k =
     (if truthy (field t ''id'') then field t ''id'' # assignedIds uuid ts k
      else JStr (uuid k) # assignedIds uuid ts (Suc k))"

definition generatedCount :: "jsval list \<Rightarrow> nat" where
  "generatedCount xs = length (filter (\<lambda>x. \<not> truthy (field x ''id'')) xs)"

text \<open>
  The task at index \<open>i\<close> is kept when no task before it, kept or not, has the same id
  (as a \<^verbatim>\<open>Set\<close> compares ids) and its \<^verbatim>\<open>experimentId\<close> is the id of an experiment.
\<close>

definition keptTask :: "jsval list \<Rightarrow> jsval list \<Rightarrow> jsval list \<Rightarrow> nat \<Rightarrow> bool" where
  "keptTask validExpIds ids raws i =
     (\<not> set_has (take i ids) (ids ! i) \<and> set_has validExpIds (field (raws ! i) ''experimentId''))"

text \<open>
  The week id of the task made from \<open>t\<close>, where \<open>w\<close> is the string of the Sunday of the
  current week: the \<^verbatim>\<open>weekId\<close> of \<open>t\<close> when that is truthy, and \<open>w\<close> otherwise.
\<close>

definition importedWeekId :: "string \<Rightarrow> jsval \<Rightarrow> jsval" where
  "importedWeekId w t = (if truthy (field t ''weekId'') then field t ''weekId'' else JStr w)"

text \<open>The task made from the input task \<open>t\<close>, with id \<open>tId\<close> and week id \<open>wk\<close>.\<close>

definition importedTask :: "jsval \<Rightarrow> jsval \<Rightarrow> jsval \<Rightarrow> RawTask" where
  "importedTask t tId wk =
     \<lparr>rt_id = tId,
      rt_experimentId = field t ''experimentId'',
      rt_title = js_or (field t ''title'') (JStr ''Untitled Task''),
      rt_description = js_or (field t ''description'') (JStr []),
      rt_weekId = wk,
      rt_status = js_or (field t ''status'') (JStr ''default''),
      rt_importance = (if isNumber (field t ''importance'') then field t ''importance'' else JNum 3),
      rt_completed = JBool (truthy (field t ''completed'')),
      rt_tags = (if isArray (field t ''tags'') then field t ''tags'' else JArr []),
      rt_attachments =
        (if isArray (field t ''attachments'') then field t ''attachments'' else JArr []),
      rt_dependencies =
        (if isArray (field t ''dependencies'') then field t ''dependencies'' else JArr []),
      rt_recurrenceGroupId = field t ''recurrenceGroupId'',
      rt_planTaskId = field t ''planTaskId''\<rparr>"

text \<open>
  The tasks to return for the input tasks \<open>raws\<close> and input experiments \<open>exps\<close>, given
  the ids of the returned experiments: the kept tasks, in the order of the input.
\<close>

definition importedTasks ::
  "(nat \<Rightarrow> string) \<Rightarrow> string \<Rightarrow> jsval list \<Rightarrow> jsval list \<Rightarrow> jsval list \<Rightarrow> RawTask list" where
  "importedTasks uuid w validExpIds exps raws =
     (let ids = assignedIds uuid raws (generatedCount exps)
      in map (\<lambda>i. importedTask (raws ! i) (ids ! i) (importedWeekId w (raws ! i)))
           (filter (keptTask validExpIds ids raws) [0..<length raws]))"

lemma set_has_iff: "set_has S x \<longleftrightarrow> isPrimitive x \<and> x \<in> set S"
  by (auto simp: set_has_def sameValueZero_def list_ex_iff)

lemma length_assignedIds: "length (assignedIds uuid ts k) = length ts"
  by (induction ts arbitrary: k) simp_all

lemma generatedCount_Cons:
  "generatedCount (t # ts) = (if truthy (field t ''id'') then 0 else 1) + generatedCount ts"
  by (simp add: generatedCount_def)

lemma generatedCount_snoc:
  "generatedCount (ts @ [t]) = generatedCount ts + (if truthy (field t ''id'') then 0 else 1)"
  by (simp add: generatedCount_def)

lemma assignedIds_nth:
  "n < length ts \<Longrightarrow>
   assignedIds uuid ts k ! n =
     (if truthy (field (ts ! n) ''id'') then field (ts ! n) ''id''
      else JStr (uuid (k + generatedCount (take n ts))))"
proof (induction ts arbitrary: k n)
  case Nil
  then show ?case by simp
next
  case (Cons t ts)
  show ?case
  proof (cases n)
    case 0
    then show ?thesis by (simp add: generatedCount_def)
  next
    case (Suc m)
    then have m: "m < length ts" using Cons.prems by simp
    show ?thesis using Suc Cons.IH[OF m] by (simp add: generatedCount_Cons)
  qed
qed

lemma cleanTask_step:
  assumes w: "normalizeToSunday (DateObj (Some today)) = Inr w" and nn: "\<not> nullish t"
    and tId: "tId = (if truthy (field t ''id'') then field t ''id'' else JStr (uuid k))"
  shows "cleanTask uuid today V t (acc, proc, k) =
     (if set_has proc tId then Inr (acc, proc, if truthy (field t ''id'') then k else Suc k)
      else if \<not> set_has V (field t ''experimentId'')
      then Inr (acc, proc @ [tId], if truthy (field t ''id'') then k else Suc k)
      else Inr (acc @ [importedTask t tId (importedWeekId w t)], proc @ [tId],
                if truthy (field t ''id'') then k else Suc k))"
proof -
  have g: "or_generateUUID uuid (field t ''id'') k =
      (tId, if truthy (field t ''id'') then k else Suc k)"
    by (simp add: or_generateUUID_def generateUUID_def tId)
  have wk: "or_currentWeek today (field t ''weekId'') = Inr (importedWeekId w t)"
    by (simp add: or_currentWeek_def importedWeekId_def w)
  show ?thesis
    unfolding cleanTask_def prod.case g wk sum.case importedTask_def using nn by simp
qed

lemma cleanTask_nullish: "nullish t \<Longrightarrow> cleanTask uuid today V t st = Inl TypeError"
  by (cases st) (simp add: cleanTask_def)

lemma reduce_tasks_append:
  "reduce_tasks uuid today V (xs @ ys) st =
     (case reduce_tasks uuid today V xs st of
        Inl e \<Rightarrow> Inl e
      | Inr st' \<Rightarrow> reduce_tasks uuid today V ys st')"
  by (induction xs arbitrary: st) (simp_all split: sum.splits)

lemma reduce_tasks_nullish:
  "\<exists>t \<in> set ts. nullish t \<Longrightarrow> \<exists>e. reduce_tasks uuid today V ts st = Inl e"
proof (induction ts arbitrary: st)
  case Nil
  then show ?case by simp
next
  case (Cons t ts)
  show ?case
  proof (cases "nullish t")
    case True
    then show ?thesis by (simp add: cleanTask_nullish)
  next
    case False
    then have "\<exists>t \<in> set ts. nullish t" using Cons.prems by simp
    then show ?thesis using Cons.IH by (cases "cleanTask uuid today V t st") simp_all
  qed
qed

lemma reduce_tasks_take:
  assumes w: "normalizeToSunday (DateObj (Some today)) = Inr w"
    and nn: "\<forall>t \<in> set raws. \<not> nullish t"
    and ids: "ids = assignedIds uuid raws k"
  shows "n \<le> length raws \<Longrightarrow>
     \<exists>proc. reduce_tasks uuid today V (take n raws) ([], [], k) =
        Inr (map (\<lambda>i. importedTask (raws ! i) (ids ! i) (importedWeekId w (raws ! i)))
               (filter (keptTask V ids raws) [0..<n]),
             proc, k + generatedCount (take n raws))
      \<and> (\<forall>x. set_has proc x = set_has (take n ids) x)"
proof (induction n)
  case 0
  show ?case by (simp add: generatedCount_def set_has_def)
next
  case (Suc n)
  let ?f = "\<lambda>i. importedTask (raws ! i) (ids ! i) (importedWeekId w (raws ! i))"
  let ?E = "\<lambda>n. map ?f (filter (keptTask V ids raws) [0..<n])"
  have n: "n < length raws" using Suc.prems by simp
  then obtain proc where
    r: "reduce_tasks uuid today V (take n raws) ([], [], k) =
          Inr (?E n, proc, k + generatedCount (take n raws))"
    and p: "\<forall>x. set_has proc x = set_has (take n ids) x"
    using Suc.IH by auto
  let ?t = "raws ! n"
  let ?k = "k + generatedCount (take n raws)"
  let ?k' = "if truthy (field ?t ''id'') then ?k else Suc ?k"
  have nnt: "\<not> nullish ?t" using nn n by simp
  have tk: "take (Suc n) raws = take n raws @ [?t]" using n by (rule take_Suc_conv_app_nth)
  have ti: "take (Suc n) ids = take n ids @ [ids ! n]"
    using n by (intro take_Suc_conv_app_nth) (simp add: ids length_assignedIds)
  have tId: "ids ! n = (if truthy (field ?t ''id'') then field ?t ''id'' else JStr (uuid ?k))"
    unfolding ids using n by (rule assignedIds_nth)
  have k': "k + generatedCount (take (Suc n) raws) = ?k'"
    by (simp add: tk generatedCount_snoc)
  have step: "reduce_tasks uuid today V (take (Suc n) raws) ([], [], k) =
      cleanTask uuid today V ?t (?E n, proc, ?k)"
    unfolding tk reduce_tasks_append r by (simp split: sum.splits)
  note c = cleanTask_step[where uuid = uuid and k = ?k and V = V and acc = "?E n" and proc = proc,
      OF w nnt tId]
  have seen: "set_has proc (ids ! n) = set_has (take n ids) (ids ! n)" using p by simp
  show ?case
  proof (cases "set_has (take n ids) (ids ! n)")
    case True
    then have nk: "\<not> keptTask V ids raws n" by (simp add: keptTask_def)
    have "\<forall>x. set_has proc x = set_has (take (Suc n) ids) x"
      using p True unfolding ti by (auto simp: set_has_iff)
    then show ?thesis
      unfolding step c k' using True seen nk by simp
  next
    case notseen: False
    have p': "\<forall>x. set_has (proc @ [ids ! n]) x = set_has (take (Suc n) ids) x"
      using p unfolding ti by (auto simp: set_has_iff)
    show ?thesis
    proof (cases "set_has V (field ?t ''experimentId'')")
      case False
      then have nk: "\<not> keptTask V ids raws n" by (simp add: keptTask_def)
      show ?thesis
        unfolding step c k' using False notseen seen nk p' by simp
    next
      case True
      then have kp: "keptTask V ids raws n" using notseen by (simp add: keptTask_def)
      show ?thesis
        unfolding step c k' using True notseen seen kp p' by simp
    qed
  qed
qed

lemma reduce_tasks_all:
  assumes w: "normalizeToSunday (DateObj (Some today)) = Inr w"
    and nn: "\<forall>t \<in> set raws. \<not> nullish t"
  shows "\<exists>proc k'. reduce_tasks uuid today V raws ([], [], k) =
        Inr (map (\<lambda>i. importedTask (raws ! i) (assignedIds uuid raws k ! i)
                        (importedWeekId w (raws ! i)))
               (filter (keptTask V (assignedIds uuid raws k) raws) [0..<length raws]),
             proc, k')"
  using reduce_tasks_take[where uuid = uuid and k = k and n = "length raws" and V = V,
      OF w nn refl]
  by auto

lemma cleanExperiment_total:
  assumes w: "normalizeToSunday (DateObj (Some today)) = Inr w" and nn: "\<not> nullish e"
  shows "\<exists>c. cleanExperiment uuid today e k =
           Inr (c, if truthy (field e ''id'') then k else Suc k)"
proof -
  have g: "or_generateUUID uuid (field e ''id'') k =
      (if truthy (field e ''id'') then field e ''id'' else JStr (uuid k),
       if truthy (field e ''id'') then k else Suc k)"
    by (simp add: or_generateUUID_def generateUUID_def)
  have wk: "or_currentWeek today (field e ''startDate'') =
      Inr (if truthy (field e ''startDate'') then field e ''startDate'' else JStr w)"
    by (simp add: or_currentWeek_def w)
  show ?thesis
    unfolding cleanExperiment_def g wk prod.case sum.case using nn by simp
qed

lemma cleanExperiment_nullish: "nullish e \<Longrightarrow> cleanExperiment uuid today e k = Inl TypeError"
  by (simp add: cleanExperiment_def)

lemma map_experiments_total:
  assumes w: "normalizeToSunday (DateObj (Some today)) = Inr w"
  shows "\<forall>e \<in> set es. \<not> nullish e \<Longrightarrow>
     \<exists>cs. map_experiments uuid today es k = Inr (cs, k + generatedCount es)"
proof (induction es arbitrary: k)
  case Nil
  then show ?case by (simp add: generatedCount_def)
next
  case (Cons e es)
  let ?k = "if truthy (field e ''id'') then k else Suc k"
  obtain c where c: "cleanExperiment uuid today e k = Inr (c, ?k)"
    using cleanExperiment_total[OF w, of e uuid k] Cons.prems by auto
  obtain cs where cs: "map_experiments uuid today es ?k = Inr (cs, ?k + generatedCount es)"
    using Cons.IH[of ?k] Cons.prems by auto
  have "map_experiments uuid today (e # es) k = Inr (c # cs, ?k + generatedCount es)"
    by (simp add: c cs)
  moreover have "?k + generatedCount es = k + generatedCount (e # es)"
    by (simp add: generatedCount_Cons)
  ultimately show ?case by auto
qed

lemma map_experiments_nullish:
  "\<exists>e \<in> set es. nullish e \<Longrightarrow> \<exists>x. map_experiments uuid today es k = Inl x"
proof (induction es arbitrary: k)
  case Nil
  then show ?case by simp
next
  case (Cons e es)
  show ?case
  proof (cases "nullish e")
    case True
    then show ?thesis by (simp add: cleanExperiment_nullish)
  next
    case False
    then have ex: "\<exists>e \<in> set es. nullish e" using Cons.prems by simp
    show ?thesis
    proof (cases "cleanExperiment uuid today e k")
      case (Inl a)
      then show ?thesis by simp
    next
      case (Inr p)
      obtain c k1 where p: "p = (c, k1)" by (cases p)
      obtain x where "map_experiments uuid today es k1 = Inl x" using Cons.IH[OF ex] by auto
      then show ?thesis using Inr p by simp
    qed
  qed
qed

lemma kept_ids:
  "n \<le> length ids \<Longrightarrow>
   distinct (filter isPrimitive (map (\<lambda>i. ids ! i) (filter (keptTask V ids raws) [0..<n])))
   \<and> set (map (\<lambda>i. ids ! i) (filter (keptTask V ids raws) [0..<n])) \<subseteq> set (take n ids)"
proof (induction n)
  case 0
  show ?case by simp
next
  case (Suc n)
  then have n: "n < length ids" by simp
  have ti: "take (Suc n) ids = take n ids @ [ids ! n]" using n by (rule take_Suc_conv_app_nth)
  have IH: "distinct (filter isPrimitive (map (\<lambda>i. ids ! i) (filter (keptTask V ids raws) [0..<n])))"
    "set (map (\<lambda>i. ids ! i) (filter (keptTask V ids raws) [0..<n])) \<subseteq> set (take n ids)"
    using Suc.IH n by simp_all
  show ?case
  proof (cases "keptTask V ids raws n")
    case False
    then show ?thesis using IH unfolding ti by auto
  next
    case True
    then have "\<not> (isPrimitive (ids ! n) \<and> ids ! n \<in> set (take n ids))"
      by (simp add: keptTask_def set_has_iff)
    then show ?thesis using IH True unfolding ti by auto
  qed
qed

lemma rt_id_importedTask: "rt_id (importedTask t tId wk) = tId"
  by (simp add: importedTask_def)

lemma importedTasks_ids:
  "map rt_id (importedTasks uuid w V exps raws) =
     map (\<lambda>i. assignedIds uuid raws (generatedCount exps) ! i)
       (filter (keptTask V (assignedIds uuid raws (generatedCount exps)) raws) [0..<length raws])"
  by (simp add: importedTasks_def Let_def rt_id_importedTask comp_def)

lemma importedTasks_distinct:
  "distinct (filter isPrimitive (map rt_id (importedTasks uuid w V exps raws)))"
  unfolding importedTasks_ids
  using kept_ids[of "length raws" "assignedIds uuid raws (generatedCount exps)" V raws]
  by (simp add: length_assignedIds)

lemma importedTasks_mem:
  assumes "x \<in> set (importedTasks uuid w V exps raws)"
  obtains i where "i < length raws" "set_has V (field (raws ! i) ''experimentId'')"
    "x = importedTask (raws ! i) (assignedIds uuid raws (generatedCount exps) ! i)
           (importedWeekId w (raws ! i))"
  using assms by (auto simp: importedTasks_def Let_def keptTask_def)

text \<open>
  Claim C10, as stated, fails for the week id: a truthy \<^verbatim>\<open>weekId\<close> of any type is
  kept as it is, so an input task with \<^verbatim>\<open>weekId: 5\<close> is returned with the number 5 as
  its week id.
\<close>

theorem validateAndMigrateAppData_counterexample:
  "map_sum id (\<lambda>d. map rt_weekId (ra_tasks d))
     (validateAndMigrateAppData exampleIds 19732 JUndefined
        (JObj [(''experiments'', JArr [JObj [(''id'', JStr ''e1'')]]),
               (''tasks'', JArr [JObj [(''id'', JStr ''t1''), (''experimentId'', JStr ''e1''),
                                       (''weekId'', JNum 5)]])]))
     = Inr [JNum 5]
   \<and> isString (JNum 5) = False"
  by code_simp

text \<open>
  Claim C10, amended. Let \<open>w\<close> be the week id of the current week, the value of
  \<^verbatim>\<open>normalizeToSunday(new Date())\<close>. The import returns exactly for the objects that have
  an \<^verbatim>\<open>experiments\<close> and a \<^verbatim>\<open>tasks\<close> array none of whose elements is \<^verbatim>\<open>null\<close> or
  \<^verbatim>\<open>undefined\<close>. When it returns, the returned tasks are \<^const>\<open>importedTasks\<close>: in the
  order of the input, the tasks made from those input tasks whose id no earlier input
  task has (as a \<^verbatim>\<open>Set\<close> compares ids) and whose \<^verbatim>\<open>experimentId\<close> is the id of a
  returned experiment; each has the id of its input task, or a generated id where that
  is falsy, and the \<^verbatim>\<open>weekId\<close> of its input task where that is truthy, of whatever type,
  and \<open>w\<close> otherwise. So the returned task ids that are strings, numbers or booleans are
  pairwise distinct, and all ids are where none is an array or an object; every
  returned task's \<^verbatim>\<open>experimentId\<close> is the id of a returned experiment; every returned
  task has an array of dependencies and a boolean \<^verbatim>\<open>completed\<close>; and all returned week
  ids are strings when every week id of the input is a string or falsy.
\<close>

theorem validateAndMigrateAppData_invariants:
  assumes w: "normalizeToSunday (DateObj (Some today)) = Inr w"
  shows
  "((\<exists>result. validateAndMigrateAppData uuid today stored imported = Inr result) \<longleftrightarrow>
      typeof_object imported \<and> truthy imported
      \<and> isArray (field imported ''experiments'') \<and> isArray (field imported ''tasks'')
      \<and> (\<forall>x \<in> set (elements (field imported ''experiments'')). \<not> nullish x)
      \<and> (\<forall>x \<in> set (elements (field imported ''tasks'')). \<not> nullish x))
   \<and> (validateAndMigrateAppData uuid today stored imported = Inr result \<longrightarrow>
        ra_tasks result =
          importedTasks uuid w (map re_id (ra_experiments result))
            (elements (field imported ''experiments'')) (elements (field imported ''tasks''))
        \<and> distinct (filter isPrimitive (map rt_id (ra_tasks result)))
        \<and> ((\<forall>x \<in> set (ra_tasks result). isPrimitive (rt_id x)) \<longrightarrow>
             distinct (map rt_id (ra_tasks result)))
        \<and> (\<forall>x \<in> set (ra_tasks result).
             (\<exists>e \<in> set (ra_experiments result). rt_experimentId x = re_id e)
             \<and> isArray (rt_dependencies x) \<and> isBoolean (rt_completed x))
        \<and> ((\<forall>t \<in> set (elements (field imported ''tasks'')).
               isString (field t ''weekId'') \<or> \<not> truthy (field t ''weekId'')) \<longrightarrow>
             (\<forall>x \<in> set (ra_tasks result). isString (rt_weekId x))))"
proof -
  let ?v = "validateAndMigrateAppData uuid today stored imported"
  let ?exps = "elements (field imported ''experiments'')"
  let ?raws = "elements (field imported ''tasks'')"
  let ?shape = "typeof_object imported \<and> truthy imported
      \<and> isArray (field imported ''experiments'') \<and> isArray (field imported ''tasks'')"
  let ?body = "case map_experiments uuid today ?exps 0 of
           Inl x \<Rightarrow> Inl x
         | Inr (cleanExperiments, k) \<Rightarrow>
             (case reduce_tasks uuid today (map re_id cleanExperiments) ?raws ([], [], k) of
                Inl x \<Rightarrow> Inl x
              | Inr (cleanTasks, processedTaskIds, k') \<Rightarrow>
                  Inr \<lparr>ra_experiments = cleanExperiments,
                       ra_tasks = cleanTasks,
                       ra_schemaVersion = 1,
                       ra_hiddenWeeks =
                         (if isArray (field imported ''hiddenWeeks'')
                          then field imported ''hiddenWeeks'' else JArr []),
                       ra_settings = js_or (field imported ''settings'') stored\<rparr>)"
  have noshape: "\<exists>e. ?v = Inl e" if "\<not> ?shape"
    using that unfolding validateAndMigrateAppData_def by (simp only: if_P if_not_P split: if_splits) auto
  have shape: "?v = ?body" if "?shape"
    using that unfolding validateAndMigrateAppData_def by simp
  have ret: "\<exists>cs proc k'. map_experiments uuid today ?exps 0 = Inr (cs, generatedCount ?exps)
      \<and> reduce_tasks uuid today (map re_id cs) ?raws ([], [], generatedCount ?exps) =
          Inr (importedTasks uuid w (map re_id cs) ?exps ?raws, proc, k')"
    if n1: "\<forall>x \<in> set ?exps. \<not> nullish x" and n2: "\<forall>x \<in> set ?raws. \<not> nullish x"
  proof -
    obtain cs where cs: "map_experiments uuid today ?exps 0 = Inr (cs, generatedCount ?exps)"
      using map_experiments_total[OF w n1, of uuid 0] by auto
    show ?thesis
      using reduce_tasks_all[OF w n2, of uuid "map re_id cs" "generatedCount ?exps"] cs
      by (auto simp: importedTasks_def Let_def)
  qed
  have fail1: "\<exists>e. ?body = Inl e" if bad: "\<not> (\<forall>x \<in> set ?exps. \<not> nullish x)"
  proof -
    obtain e where "map_experiments uuid today ?exps 0 = Inl e"
      using map_experiments_nullish[of ?exps uuid today 0] bad by auto
    then show ?thesis by simp
  qed
  have fail2: "\<exists>e. ?body = Inl e" if bad: "\<not> (\<forall>x \<in> set ?raws. \<not> nullish x)"
  proof (cases "map_experiments uuid today ?exps 0")
    case (Inl a)
    then show ?thesis by simp
  next
    case (Inr p)
    obtain cs k where p: "p = (cs, k)" by (cases p)
    obtain e where "reduce_tasks uuid today (map re_id cs) ?raws ([], [], k) = Inl e"
      using reduce_tasks_nullish[of ?raws uuid today "map re_id cs" "([], [], k)"] bad by auto
    then show ?thesis using Inr p by simp
  qed
  have total: "(\<exists>result. ?v = Inr result) \<longleftrightarrow>
      ?shape \<and> (\<forall>x \<in> set ?exps. \<not> nullish x) \<and> (\<forall>x \<in> set ?raws. \<not> nullish x)"
  proof
    assume r: "\<exists>result. ?v = Inr result"
    have s: ?shape using r noshape by (cases ?shape) auto
    have "\<forall>x \<in> set ?exps. \<not> nullish x" using r fail1 shape[OF s] by fastforce
    moreover have "\<forall>x \<in> set ?raws. \<not> nullish x" using r fail2 shape[OF s] by fastforce
    ultimately show "?shape \<and> (\<forall>x \<in> set ?exps. \<not> nullish x) \<and> (\<forall>x \<in> set ?raws. \<not> nullish x)"
      using s by simp
  next
    assume a: "?shape \<and> (\<forall>x \<in> set ?exps. \<not> nullish x) \<and> (\<forall>x \<in> set ?raws. \<not> nullish x)"
    then have s: ?shape by simp
    obtain cs proc k' where "map_experiments uuid today ?exps 0 = Inr (cs, generatedCount ?exps)"
      "reduce_tasks uuid today (map re_id cs) ?raws ([], [], generatedCount ?exps) =
          Inr (importedTasks uuid w (map re_id cs) ?exps ?raws, proc, k')"
      using ret a by blast
    then show "\<exists>result. ?v = Inr result" unfolding shape[OF s] by simp
  qed
  have props: "ra_tasks result = importedTasks uuid w (map re_id (ra_experiments result)) ?exps ?raws"
    if r: "?v = Inr result"
  proof -
    have a: "?shape \<and> (\<forall>x \<in> set ?exps. \<not> nullish x) \<and> (\<forall>x \<in> set ?raws. \<not> nullish x)"
      using total r by blast
    then have s: ?shape by simp
    obtain cs proc k' where "map_experiments uuid today ?exps 0 = Inr (cs, generatedCount ?exps)"
      "reduce_tasks uuid today (map re_id cs) ?raws ([], [], generatedCount ?exps) =
          Inr (importedTasks uuid w (map re_id cs) ?exps ?raws, proc, k')"
      using ret a by blast
    then show ?thesis using r unfolding shape[OF s] by auto
  qed
  have derived: "distinct (filter isPrimitive (map rt_id ts))
        \<and> ((\<forall>x \<in> set ts. isPrimitive (rt_id x)) \<longrightarrow> distinct (map rt_id ts))
        \<and> (\<forall>x \<in> set ts.
             (\<exists>e \<in> set es. rt_experimentId x = re_id e)
             \<and> isArray (rt_dependencies x) \<and> isBoolean (rt_completed x))
        \<and> ((\<forall>t \<in> set ?raws. isString (field t ''weekId'') \<or> \<not> truthy (field t ''weekId'')) \<longrightarrow>
             (\<forall>x \<in> set ts. isString (rt_weekId x)))"
    if ts: "ts = importedTasks uuid w (map re_id es) ?exps ?raws" for ts es
  proof (intro conjI impI ballI)
    show d: "distinct (filter isPrimitive (map rt_id ts))"
      unfolding ts by (rule importedTasks_distinct)
    show "distinct (map rt_id ts)" if "\<forall>x \<in> set ts. isPrimitive (rt_id x)"
    proof -
      have "filter isPrimitive (map rt_id ts) = map rt_id ts" using that by (simp add: filter_id_conv)
      then show ?thesis using d by simp
    qed
  next
    fix x assume "x \<in> set ts"
    then obtain i where i: "i < length ?raws"
      "set_has (map re_id es) (field (?raws ! i) ''experimentId'')"
      "x = importedTask (?raws ! i) (assignedIds uuid ?raws (generatedCount ?exps) ! i)
             (importedWeekId w (?raws ! i))"
      unfolding ts by (rule importedTasks_mem)
    show "\<exists>e \<in> set es. rt_experimentId x = re_id e"
      using i(2,3) by (auto simp: set_has_iff importedTask_def)
    show "isArray (rt_dependencies x)" using i(3) by (simp add: importedTask_def)
    show "isBoolean (rt_completed x)" using i(3) by (simp add: importedTask_def)
  next
    fix x
    assume a: "\<forall>t \<in> set ?raws. isString (field t ''weekId'') \<or> \<not> truthy (field t ''weekId'')"
      and mem: "x \<in> set ts"
    from mem obtain i where i: "i < length ?raws"
      "x = importedTask (?raws ! i) (assignedIds uuid ?raws (generatedCount ?exps) ! i)
             (importedWeekId w (?raws ! i))"
      unfolding ts by (rule importedTasks_mem)
    have "isString (field (?raws ! i) ''weekId'') \<or> \<not> truthy (field (?raws ! i) ''weekId'')"
      using a i(1) by simp
    then show "isString (rt_weekId x)" using i(2) by (auto simp: importedTask_def importedWeekId_def)
  qed
  show ?thesis
    using total props derived[OF props] by blast
qed

text \<open>
  An instance of the amended C10: a task, a second task of the same id, a task of an
  unknown experiment, and a task with neither id nor week id, imported on Wednesday
  2024-01-10, day 19732. The first and the last are returned, the last with the
  generated id and the week id of Sunday 2024-01-07.
\<close>

theorem validateAndMigrateAppData_invariants_witness:
  "normalizeToSunday (DateObj (Some 19732)) = Inr ''2024-01-07''
   \<and> (\<exists>result. validateAndMigrateAppData exampleIds 19732 JUndefined
       (JObj [(''experiments'', JArr [JObj [(''id'', JStr ''e1'')]]),
              (''tasks'', JArr
                 [JObj [(''id'', JStr ''t1''), (''experimentId'', JStr ''e1''),
                        (''weekId'', JStr ''2024-01-14'')],
                  JObj [(''id'', JStr ''t1''), (''experimentId'', JStr ''e1'')],
                  JObj [(''id'', JStr ''t2''), (''experimentId'', JStr ''e9'')],
                  JObj [(''experimentId'', JStr ''e1''), (''completed'', JNum 1)]])]) = Inr result
     \<and> ra_tasks result =
         importedTasks exampleIds ''2024-01-07'' [JStr ''e1''] [JObj [(''id'', JStr ''e1'')]]
           [JObj [(''id'', JStr ''t1''), (''experimentId'', JStr ''e1''),
                  (''weekId'', JStr ''2024-01-14'')],
            JObj [(''id'', JStr ''t1''), (''experimentId'', JStr ''e1'')],
            JObj [(''id'', JStr ''t2''), (''experimentId'', JStr ''e9'')],
            JObj [(''experimentId'', JStr ''e1''), (''completed'', JNum 1)]]
     \<and> map rt_id (ra_tasks result) = [JStr ''t1'', JStr ''id0'']
     \<and> map rt_weekId (ra_tasks result) = [JStr ''2024-01-14'', JStr ''2024-01-07'']
     \<and> map rt_completed (ra_tasks result) = [JBool False, JBool True]
     \<and> map re_id (ra_experiments result) = [JStr ''e1'']
     \<and> distinct (map rt_id (ra_tasks result)))"
proof -
  define input where "input = JObj [(''experiments'', JArr [JObj [(''id'', JStr ''e1'')]]),
              (''tasks'', JArr
                 [JObj [(''id'', JStr ''t1''), (''experimentId'', JStr ''e1''),
                        (''weekId'', JStr ''2024-01-14'')],
                  JObj [(''id'', JStr ''t1''), (''experimentId'', JStr ''e1'')],
                  JObj [(''id'', JStr ''t2''), (''experimentId'', JStr ''e9'')],
                  JObj [(''experimentId'', JStr ''e1''), (''completed'', JNum 1)]])]"
  have w: "normalizeToSunday (DateObj (Some 19732)) = Inr ''2024-01-07''"
    by code_simp
  have v: "map_sum id (\<lambda>d. (map rt_id (ra_tasks d), map rt_weekId (ra_tasks d),
                              map rt_completed (ra_tasks d), map re_id (ra_experiments d)))
             (validateAndMigrateAppData exampleIds 19732 JUndefined input)
           = Inr ([JStr ''t1'', JStr ''id0''], [JStr ''2024-01-14'', JStr ''2024-01-07''],
                  [JBool False, JBool True], [JStr ''e1''])"
    unfolding input_def by code_simp
  then obtain result where r: "validateAndMigrateAppData exampleIds 19732 JUndefined input = Inr result"
    by (cases "validateAndMigrateAppData exampleIds 19732 JUndefined input") auto
  have m: "map rt_id (ra_tasks result) = [JStr ''t1'', JStr ''id0'']"
    "map rt_weekId (ra_tasks result) = [JStr ''2024-01-14'', JStr ''2024-01-07'']"
    "map rt_completed (ra_tasks result) = [JBool False, JBool True]"
    "map re_id (ra_experiments result) = [JStr ''e1'']"
    using v r by simp_all
  have f: "elements (field input ''experiments'') = [JObj [(''id'', JStr ''e1'')]]"
    "elements (field input ''tasks'') =
       [JObj [(''id'', JStr ''t1''), (''experimentId'', JStr ''e1''),
              (''weekId'', JStr ''2024-01-14'')],
        JObj [(''id'', JStr ''t1''), (''experimentId'', JStr ''e1'')],
        JObj [(''id'', JStr ''t2''), (''experimentId'', JStr ''e9'')],
        JObj [(''experimentId'', JStr ''e1''), (''completed'', JNum 1)]]"
    by (simp_all add: input_def)
  have "ra_tasks result =
          importedTasks exampleIds ''2024-01-07'' (map re_id (ra_experiments result))
            (elements (field input ''experiments'')) (elements (field input ''tasks''))
        \<and> distinct (map rt_id (ra_tasks result))"
    using validateAndMigrateAppData_invariants [OF w, of exampleIds JUndefined input result] r m(1)
    by simp
  then show ?thesis
    using w r m unfolding f input_def by auto
qed

section \<open>The cycle guard is exact\<close>

lemma settled_reach:
  assumes "settled E B" "b \<in> B" "(b, c) \<in> E\<^sup>*"
  shows "c \<in> B"
  using assms(3,1,2) by (induction rule: rtrancl_induct) (auto simp: settled_def)

lemma settled_no_cycle:
  assumes "settled E B" "x \<in> B"
  shows "\<not> cycleReachable E x"
proof
  assume "cycleReachable E x"
  then obtain y where "(x, y) \<in> E\<^sup>*" "(y, y) \<in> E\<^sup>+" by (auto simp: cycleReachable_def)
  then have "y \<in> B" using settled_reach[OF assms] by simp
  then show False using assms(1) \<open>(y, y) \<in> E\<^sup>+\<close> by (auto simp: settled_def)
qed

lemma settled_insert:
  assumes "settled E B" "c \<notin> B" "\<forall>d. (c, d) \<in> E \<longrightarrow> d \<in> B"
  shows "settled E (insert c B)"
proof -
  have "(c, c) \<notin> E\<^sup>+"
  proof
    assume "(c, c) \<in> E\<^sup>+"
    then obtain d where "(c, d) \<in> E" "(d, c) \<in> E\<^sup>*" by (meson tranclD)
    then have "c \<in> B" using settled_reach[OF assms(1)] assms(3) by blast
    then show False using assms(2) by simp
  qed
  then show ?thesis using assms by (auto simp: settled_def)
qed

lemma cycleReachable_step:
  "(c, n) \<in> E \<Longrightarrow> cycleReachable E n \<Longrightarrow> cycleReachable E c"
  by (auto simp: cycleReachable_def intro: converse_rtrancl_into_rtrancl)

lemma dfs_invariant:
  "c \<notin> fst st \<longrightarrow> pre_state adj c st \<longrightarrow> post_isCyclic adj c st (isCyclic adj c st)"
  "\<forall>c. c \<in> snd st \<longrightarrow> set ns \<subseteq> set (neighbors adj c) \<longrightarrow> pre_state adj c st \<longrightarrow>
       post_neighbors adj c ns st (isCyclic_neighbors adj ns st)"
proof (induction adj c st and adj ns st rule: isCyclic_isCyclic_neighbors.induct)
  case (1 adj current V S)
  show ?case
  proof (intro impI)
    assume c: "current \<notin> fst (V, S)" and p: "pre_state adj current (V, S)"
    let ?E = "edges adj"
    have cV: "current \<notin> V" and cS: "current \<notin> S" and SV: "S \<subseteq> V"
      and reach: "\<forall>s \<in> S. (s, current) \<in> ?E\<^sup>*" and bl: "settled ?E (V - S)"
      using c p by (auto simp: pre_state_def)
    have eq: "insert current V - insert current S = V - S" using cV by auto
    have p2: "pre_state adj current (insert current V, insert current S)"
      using SV reach bl by (auto simp: pre_state_def eq)
    define r where "r = isCyclic_neighbors adj (neighbors adj current) (insert current V, insert current S)"
    have q: "post_neighbors adj current (neighbors adj current) (insert current V, insert current S) r"
      using 1 p2 by (simp add: r_def)
    show "post_isCyclic adj current (V, S) (isCyclic adj current (V, S))"
    proof (cases "fst r")
      case True
      then have "fst (isCyclic adj current (V, S))"
        by (cases r) (simp add: isCyclic.simps r_def[symmetric])
      then show ?thesis using q True by (simp add: post_isCyclic_def post_neighbors_def)
    next
      case False
      obtain V' S' where r: "r = (False, V', S')" using False by (cases r) auto
      have f: "S' = insert current S" "insert current V \<subseteq> V'"
        "set (neighbors adj current) \<subseteq> V' - insert current S" "settled ?E (V' - insert current S)"
        using q r by (simp_all add: post_neighbors_def)
      have res: "isCyclic adj current (V, S) = (False, V', S)"
        using r f(1) cS by (simp add: isCyclic.simps r_def[symmetric])
      have "V' - S = insert current (V' - insert current S)" using f(2) cS by auto
      moreover have "settled ?E (insert current (V' - insert current S))"
        using f(3) by (intro settled_insert[OF f(4)]) (auto simp: edges_def)
      ultimately have "settled ?E (V' - S)" by simp
      then show ?thesis using res f(2) by (simp add: post_isCyclic_def)
    qed
  qed
next
  case (2 adj st)
  then show ?case by (simp add: post_neighbors_def pre_state_def)
next
  case (3 adj n rest V S)
  show ?case
  proof (intro allI impI)
    fix c
    assume cS: "c \<in> snd (V, S)" and sub: "set (n # rest) \<subseteq> set (neighbors adj c)"
      and p: "pre_state adj c (V, S)"
    let ?E = "edges adj"
    have cn: "(c, n) \<in> ?E" and sub': "set rest \<subseteq> set (neighbors adj c)"
      using sub by (auto simp: edges_def)
    have SV: "S \<subseteq> V" and reach: "\<forall>s \<in> S. (s, c) \<in> ?E\<^sup>*" and bl: "settled ?E (V - S)"
      using p by (auto simp: pre_state_def)
    show "post_neighbors adj c (n # rest) (V, S) (isCyclic_neighbors adj (n # rest) (V, S))"
    proof (cases "n \<notin> V")
      case True
      have pn: "pre_state adj n (V, S)"
        using SV reach bl cn by (auto simp: pre_state_def intro: rtrancl_into_rtrancl)
      define r1 where "r1 = isCyclic adj n (V, S)"
      have q1: "post_isCyclic adj n (V, S) r1" using 3(1)[OF True] True pn by (simp add: r1_def)
      show ?thesis
      proof (cases "fst r1")
        case t: True
        then have "fst (isCyclic_neighbors adj (n # rest) (V, S))"
          using True by (cases r1) (simp add: r1_def[symmetric])
        moreover have "cycleReachable ?E c"
          using q1 t cn by (auto simp: post_isCyclic_def intro: cycleReachable_step)
        ultimately show ?thesis by (simp add: post_neighbors_def)
      next
        case False
        obtain V1 S1 where r1: "r1 = (False, V1, S1)" using False by (cases r1) auto
        have f1: "S1 = S" "V \<subseteq> V1" "n \<in> V1" "settled ?E (V1 - S)"
          using q1 r1 by (simp_all add: post_isCyclic_def)
        have p1: "pre_state adj c (V1, S1)"
          using f1 SV reach by (auto simp: pre_state_def)
        have e: "(False, (V1, S1)) = isCyclic adj n (V, S)" using r1 by (simp add: r1_def)
        define r2 where "r2 = isCyclic_neighbors adj rest (V1, S1)"
        have q2: "post_neighbors adj c rest (V1, S1) r2"
          using 3(2)[OF True e refl] cS sub' p1 f1(1) by (simp add: r2_def)
        have res: "isCyclic_neighbors adj (n # rest) (V, S) = r2"
          using True e[symmetric] by (simp add: r2_def)
        have nS: "n \<notin> S" using True SV by auto
        show ?thesis
        proof (cases "fst r2")
          case True
          then show ?thesis unfolding res using q2 by (simp add: post_neighbors_def)
        next
          case False
          then have g: "snd (snd r2) = S" "V1 \<subseteq> fst (snd r2)"
            "set rest \<subseteq> fst (snd r2) - S" "settled ?E (fst (snd r2) - S)"
            using q2 f1(1) by (simp_all add: post_neighbors_def)
          have "V \<subseteq> fst (snd r2)" using f1(2) g(2) by (rule subset_trans)
          moreover have "n \<in> fst (snd r2) - S" using f1(3) g(2) nS by auto
          ultimately show ?thesis unfolding res using False g by (simp add: post_neighbors_def)
        qed
      qed
    next
      case False
      then have nV: "n \<in> V" by simp
      show ?thesis
      proof (cases "n \<in> S")
        case True
        then have "(n, c) \<in> ?E\<^sup>*" using reach by simp
        then have "(n, n) \<in> ?E\<^sup>+" using cn by (rule rtrancl_into_trancl1)
        moreover have "(c, n) \<in> ?E\<^sup>*" using cn by simp
        ultimately have "cycleReachable ?E c" by (auto simp: cycleReachable_def)
        then show ?thesis using nV True by (simp add: post_neighbors_def)
      next
        case nS: False
        have q: "post_neighbors adj c rest (V, S) (isCyclic_neighbors adj rest (V, S))"
          using 3(3)[OF False nS] cS sub' p by simp
        have res: "isCyclic_neighbors adj (n # rest) (V, S) = isCyclic_neighbors adj rest (V, S)"
          using nV nS by simp
        show ?thesis
        proof (cases "fst (isCyclic_neighbors adj rest (V, S))")
          case True
          then show ?thesis unfolding res using q by (simp add: post_neighbors_def)
        next
          case False
          then have g: "fst (V, S) \<subseteq> fst (snd (isCyclic_neighbors adj rest (V, S)))"
            using q by (simp add: post_neighbors_def)
          then have "n \<in> fst (snd (isCyclic_neighbors adj rest (V, S))) - S" using nV nS by auto
          then show ?thesis unfolding res using False q by (simp add: post_neighbors_def)
        qed
      qed
    qed
  qed
qed

lemma isCyclic_correct:
  "fst (isCyclic adj x ({}, {})) \<longleftrightarrow> cycleReachable (edges adj) x"
proof -
  have "pre_state adj x ({}, {})" by (simp add: pre_state_def settled_def)
  then have p: "post_isCyclic adj x ({}, {}) (isCyclic adj x ({}, {}))"
    using dfs_invariant(1)[of x "({}, {})" adj] by simp
  show ?thesis
  proof (cases "fst (isCyclic adj x ({}, {}))")
    case True
    then show ?thesis using p by (simp add: post_isCyclic_def)
  next
    case False
    then have "x \<in> fst (snd (isCyclic adj x ({}, {})))"
      "settled (edges adj) (fst (snd (isCyclic adj x ({}, {}))))"
      using p by (simp_all add: post_isCyclic_def)
    then have "\<not> cycleReachable (edges adj) x" by (intro settled_no_cycle)
    then show ?thesis using False by simp
  qed
qed

lemma map_of_map_set: "map_of (map_set k v m) = (map_of m)(k \<mapsto> v)"
  by (induction m) (auto simp: fun_eq_iff)

lemma neighbors_map_set:
  "neighbors (map_set k v m) a = (if a = k then v else neighbors m a)"
  by (simp add: neighbors_def map_of_map_set)

lemma find_app:
  "find P (xs @ ys) = (case find P xs of None \<Rightarrow> find P ys | Some x \<Rightarrow> Some x)"
  by (induction xs) auto

lemma map_of_fold_tasks:
  "map_of (fold (\<lambda>t m. map_set (task_id t) (dependencies t) m) ts m0) a =
     (case find (\<lambda>t. task_id t = a) (rev ts) of
        Some t \<Rightarrow> Some (dependencies t)
      | None \<Rightarrow> map_of m0 a)"
proof (induction ts arbitrary: m0)
  case Nil
  then show ?case by simp
next
  case (Cons t ts)
  show ?case
    by (simp add: Cons.IH map_of_map_set find_app split: option.splits)
qed

lemma edges_built:
  "edges (fold (\<lambda>t m. map_set (task_id t) (dependencies t) m) allTasks []) = storedEdges allTasks"
  by (auto simp: edges_def storedEdges_def neighbors_def map_of_fold_tasks split: option.splits)

lemma edges_added:
  "edges (map_set taskId (neighbors adj taskId @ [d]) adj) = insert (taskId, d) (edges adj)"
  by (auto simp: edges_def neighbors_map_set split: if_splits)

lemma find_rev_distinct:
  assumes "distinct (map task_id ts)"
  shows "find (\<lambda>t. task_id t = a) (rev ts) = Some t \<longleftrightarrow> t \<in> set ts \<and> task_id t = a"
proof
  assume "find (\<lambda>t. task_id t = a) (rev ts) = Some t"
  then show "t \<in> set ts \<and> task_id t = a" using find_task_some[of a "rev ts" t] by simp
next
  assume t: "t \<in> set ts \<and> task_id t = a"
  have "distinct (map task_id (rev ts))" using assms by (simp add: rev_map[symmetric])
  then show "find (\<lambda>t. task_id t = a) (rev ts) = Some t"
    using find_task_distinct[of "rev ts" t] t by auto
qed

lemma storedEdges_distinct:
  "distinct (map task_id allTasks) \<Longrightarrow> storedEdges allTasks = dependencyEdges allTasks"
  by (auto simp: storedEdges_def dependencyEdges_def find_rev_distinct)

lemma hasCircularDependency_stored:
  "hasCircularDependency allTasks taskId d \<longleftrightarrow>
     cycleReachable (insert (taskId, d) (storedEdges allTasks)) taskId"
proof (cases "taskId = d")
  case True
  have "(taskId, taskId) \<in> (insert (taskId, d) (storedEdges allTasks))\<^sup>+" using True by auto
  then have "cycleReachable (insert (taskId, d) (storedEdges allTasks)) taskId"
    unfolding cycleReachable_def by blast
  then show ?thesis using True by (simp add: hasCircularDependency_def)
next
  case False
  then show ?thesis
    by (simp add: hasCircularDependency_def Let_def isCyclic_correct edges_added edges_built)
qed

text \<open>
  Claim C1. \<^const>\<open>hasCircularDependency\<close> returns true exactly when a directed cycle is
  reachable from \<open>taskId\<close> in the graph the code builds with the edge
  \<open>taskId \<rightarrow> newDependencyId\<close> added (which holds in particular when the two ids are
  equal). Where the ids of the task list are unique, that graph is the dependency graph
  of the list: the guard returns true if and only if \<open>taskId = newDependencyId\<close>, or the
  dependency graph with the edge \<open>taskId \<rightarrow> newDependencyId\<close> added has a directed cycle
  reachable from \<open>taskId\<close>. For a diamond, \<open>A\<close> depending on \<open>B\<close> and on \<open>C\<close> and no edge
  between \<open>B\<close> and \<open>C\<close>, proposing \<open>B \<rightarrow> C\<close> returns false.
\<close>

theorem hasCircularDependency_iff:
  "(hasCircularDependency allTasks taskId newDependencyId \<longleftrightarrow>
      cycleReachable (insert (taskId, newDependencyId) (storedEdges allTasks)) taskId)
   \<and> (distinct (map task_id allTasks) \<longrightarrow>
        (hasCircularDependency allTasks taskId newDependencyId \<longleftrightarrow>
           taskId = newDependencyId \<or>
           cycleReachable (insert (taskId, newDependencyId) (dependencyEdges allTasks)) taskId))
   \<and> (task_id A \<noteq> task_id B \<and> task_id A \<noteq> task_id C \<and> task_id B \<noteq> task_id C \<and>
        dependencies A = [task_id B, task_id C] \<and> dependencies B = [] \<and> dependencies C = [] \<longrightarrow>
        hasCircularDependency [A, B, C] (task_id B) (task_id C) = False)"
proof (intro conjI impI)
  show 1: "hasCircularDependency allTasks taskId newDependencyId \<longleftrightarrow>
      cycleReachable (insert (taskId, newDependencyId) (storedEdges allTasks)) taskId"
    by (rule hasCircularDependency_stored)
  show "hasCircularDependency allTasks taskId newDependencyId \<longleftrightarrow>
           taskId = newDependencyId \<or>
           cycleReachable (insert (taskId, newDependencyId) (dependencyEdges allTasks)) taskId"
    if "distinct (map task_id allTasks)"
  proof (cases "taskId = newDependencyId")
    case True
    then show ?thesis by (simp add: hasCircularDependency_def)
  next
    case False
    then show ?thesis using 1 that by (simp add: storedEdges_distinct)
  qed
  show "hasCircularDependency [A, B, C] (task_id B) (task_id C) = False"
    if d: "task_id A \<noteq> task_id B \<and> task_id A \<noteq> task_id C \<and> task_id B \<noteq> task_id C \<and>
        dependencies A = [task_id B, task_id C] \<and> dependencies B = [] \<and> dependencies C = []"
  proof -
    let ?a = "task_id A" and ?b = "task_id B" and ?c = "task_id C"
    let ?E = "insert (?b, ?c) (storedEdges [A, B, C])"
    have "distinct (map task_id [A, B, C])" using d by simp
    then have E: "?E = {(?b, ?c), (?a, ?b), (?a, ?c)}"
      using d by (auto simp: storedEdges_distinct dependencyEdges_def)
    have s1: "settled ?E {?c}"
      unfolding E settled_def using d by (auto dest: tranclD)
    have "settled ?E (insert ?b {?c})"
      using d by (intro settled_insert[OF s1]) (auto simp: E)
    then have "\<not> cycleReachable ?E ?b" by (intro settled_no_cycle) auto
    then show ?thesis by (simp add: hasCircularDependency_stored)
  qed
qed

text \<open>
  Instances of C1: with \<open>A\<close> depending on \<open>B\<close> and \<open>B\<close> on \<open>C\<close>, proposing \<open>C \<rightarrow> A\<close> is
  rejected, and a cycle is then reachable from \<open>C\<close>; in the diamond, \<open>B \<rightarrow> C\<close> is not.
\<close>

theorem hasCircularDependency_iff_witness:
  "distinct (map task_id
     [exampleTask ''A'' False [''B''], exampleTask ''B'' False [''C''], exampleTask ''C'' False []])
   \<and> hasCircularDependency
        [exampleTask ''A'' False [''B''], exampleTask ''B'' False [''C''], exampleTask ''C'' False []]
        ''C'' ''A''
   \<and> ''C'' \<noteq> ''A''
   \<and> cycleReachable
        (insert (''C'', ''A'')
           (dependencyEdges
              [exampleTask ''A'' False [''B''], exampleTask ''B'' False [''C''],
               exampleTask ''C'' False []]))
        ''C''
   \<and> dependencies (exampleTask ''A'' False [''B'', ''C'']) =
        [task_id (exampleTask ''B'' False []), task_id (exampleTask ''C'' False [])]
   \<and> hasCircularDependency
        [exampleTask ''A'' False [''B'', ''C''], exampleTask ''B'' False [], exampleTask ''C'' False []]
        ''B'' ''C'' = False"
proof -
  have c: "hasCircularDependency
     [exampleTask ''A'' False [''B''], exampleTask ''B'' False [''C''], exampleTask ''C'' False []]
     ''C'' ''A''"
    by code_simp
  have d: "distinct (map task_id
     [exampleTask ''A'' False [''B''], exampleTask ''B'' False [''C''], exampleTask ''C'' False []])"
    by (simp add: exampleTask_def)
  have sel: "task_id (exampleTask i b ds) = i" "dependencies (exampleTask i b ds) = ds"
    for i b ds
    by (simp_all add: exampleTask_def)
  show ?thesis
    using hasCircularDependency_iff
      [of "[exampleTask ''A'' False [''B''], exampleTask ''B'' False [''C''],
            exampleTask ''C'' False []]" "''C''" "''A''"
          "exampleTask ''A'' False [''B'', ''C'']" "exampleTask ''B'' False []"
          "exampleTask ''C'' False []"] c d
    by (simp add: sel)
qed

end
